theory Spec2Isabelle
  imports Main
begin

text \<open>
  The repository holds three texts of the component \<^verbatim>\<open>Transition.svelte\<close>. They share
  the class-string helpers and the counting gate and differ in their asynchronous
  bodies, so every definition below that depends on the text takes the variant.
  \<^item> \<open>Legacy\<close>: the first text of \<^verbatim>\<open>src/lib/Transition.svelte\<close> (flag
    \<^verbatim>\<open>initialized\<close>, wrapper class \<^verbatim>\<open>render\<close>);
  \<^item> \<open>Slots\<close>: the second text of that file (flag \<^verbatim>\<open>run\<close>, wrapper class
    \<^verbatim>\<open>show\<close>, \<^verbatim>\<open>ensureMountedElement\<close>);
  \<^item> \<open>Runes\<close>: the text with \<^verbatim>\<open>$props\<close>, \<^verbatim>\<open>context.appear\<close> and the promise
    \<^verbatim>\<open>executing\<close>.
\<close>

datatype variant = Legacy | Slots | Runes

section \<open>Class strings and the component's inputs\<close>

text \<open>
  \<^verbatim>\<open>String.prototype.split(' ')\<close>: the pieces between single space characters; the
  empty string gives one empty piece, and \<open>n\<close> spaces give \<open>n + 1\<close> pieces.
\<close>

fun split_space :: "string \<Rightarrow> string list" where
  "split_space [] = [[]]"
| "split_space (c # cs) =
     (if c = CHR '' '' then [] # split_space cs
      else (case split_space cs of
              [] \<Rightarrow> [[c]]
            | w # ws \<Rightarrow> (c # w) # ws))"

text \<open>
  \<^verbatim>\<open>function classes(classes: string) {
    return classes ? classes.split(' ').filter(x => x) : []
  }\<close>
  A string is truthy when it is not empty.
\<close>

definition classes :: "string \<Rightarrow> string list" where
  "classes s = (if s \<noteq> [] then filter (\<lambda>x. x \<noteq> []) (split_space s) else [])"

text \<open>
  The inputs of the component. \<open>show = None\<close> is \<^verbatim>\<open>null\<close> (a child transition);
  the leave strings are \<^verbatim>\<open>null\<close> when not given.
\<close>

record props =
  p_show :: "bool option"
  p_appear :: bool
  p_unmount :: bool
  p_enter :: string
  p_enterFrom :: string
  p_enterTo :: string
  p_leave :: "string option"
  p_leaveFrom :: "string option"
  p_leaveTo :: "string option"

definition enterClasses :: "props \<Rightarrow> string list" where
  "enterClasses p = classes (p_enter p)"

definition enterFromClasses :: "props \<Rightarrow> string list" where
  "enterFromClasses p = classes (p_enterFrom p)"

definition enterToClasses :: "props \<Rightarrow> string list" where
  "enterToClasses p = classes (p_enterTo p)"

text \<open>
  \<^verbatim>\<open>leaveClasses = classes(leave === null ? enter : leave)
  leaveFromClasses = classes(leaveFrom === null ? enterTo : leaveFrom)
  leaveToClasses = classes(leaveTo === null ? enterFrom : leaveTo)\<close>
  The three conditional expressions are named \<open>leave_string\<close>, \<open>leaveFrom_string\<close> and
  \<open>leaveTo_string\<close>.
\<close>

definition leave_string :: "props \<Rightarrow> string" where
  "leave_string p = (case p_leave p of None \<Rightarrow> p_enter p | Some l \<Rightarrow> l)"

definition leaveFrom_string :: "props \<Rightarrow> string" where
  "leaveFrom_string p = (case p_leaveFrom p of None \<Rightarrow> p_enterTo p | Some l \<Rightarrow> l)"

definition leaveTo_string :: "props \<Rightarrow> string" where
  "leaveTo_string p = (case p_leaveTo p of None \<Rightarrow> p_enterFrom p | Some l \<Rightarrow> l)"

definition leaveClasses :: "props \<Rightarrow> string list" where
  "leaveClasses p = classes (leave_string p)"

definition leaveFromClasses :: "props \<Rightarrow> string list" where
  "leaveFromClasses p = classes (leaveFrom_string p)"

definition leaveToClasses :: "props \<Rightarrow> string list" where
  "leaveToClasses p = classes (leaveTo_string p)"

section \<open>State of a tree of transitions\<close>

type_synonym nid = nat
type_synonym aid = nat

text \<open>
  The bodies of \<^verbatim>\<open>enter\<close>, \<^verbatim>\<open>leave\<close> and \<^verbatim>\<open>apply\<close> are sequences of statements; one
  constructor stands for each statement. The constructors named \<open>Await...\<close> are the
  statements at which the asynchronous function suspends. The four component events are
  \<^verbatim>\<open>before-enter\<close>, \<^verbatim>\<open>after-enter\<close>, \<^verbatim>\<open>before-leave\<close> and \<^verbatim>\<open>after-leave\<close>.
\<close>

datatype event = BeforeEnter | AfterEnter | BeforeLeave | AfterLeave

datatype instr =
    Dispatch event
  | ElDisplay string
  | ElVisibility string
  | Wrapper bool
  | AwaitMounted
  | BindEl
  | NewCompleted
  | ChildrenCompleted
  | SetShow bool
  | AddClasses "string list"
  | RemoveClasses "string list"
  | TransitionEnd "string list"
  | AwaitNextFrame
  | AwaitTransitioned
  | AwaitCompleted
  | AwaitAll
  | AwaitParentCompleted
  | ResolveCompleted
  | AwaitApply
  | SetMounted bool

text \<open>What a suspended asynchronous function waits for.\<close>

datatype wait =
    W_Tick
  | W_Frame
  | W_Transitioned
  | W_Children
  | W_All
  | W_Completed nid aid
  | W_Never

text \<open>
  One run of \<^verbatim>\<open>enter()\<close> or \<^verbatim>\<open>leave()\<close>, with the locals of the \<^verbatim>\<open>apply\<close> call
  inside it: the promises \<^verbatim>\<open>transitioned\<close>, \<^verbatim>\<open>children\<close> (\<^verbatim>\<open>completed\<close> in the
  \<open>Legacy\<close> text) and \<^verbatim>\<open>completed\<close>, and the counter \<^verbatim>\<open>let count = 0\<close> of the closure
  that \<^verbatim>\<open>childrenCompleted\<close> installs. \<open>a_enter\<close> says whether it runs \<^verbatim>\<open>enter\<close>;
  \<open>a_pc\<close> counts the statements completed;
  \<open>a_wait\<close> is set while the function is suspended; \<open>a_raf\<close> counts the animation
  frame callbacks of the pending \<^verbatim>\<open>nextFrame()\<close>. The last five fields are
  records that no statement reads: \<open>a_resolves\<close> counts the calls of the gate's
  \<^verbatim>\<open>resolve()\<close>, \<open>a_reports\<close> lists the callers of the installed closure, \<open>a_seq\<close> is
  the number of closures installed on the context up to and with this activation's
  (zero while it has installed none), \<open>a_tag\<close> is that number at the parent's
  context when the parent's store sent the value that started this activation, and
  \<open>a_sent\<close> is that number at the node's own context when this activation's value was
  \<^verbatim>\<open>set\<close> on the store.
\<close>

record activation =
  a_enter :: bool
  a_pc :: nat
  a_wait :: "wait option"
  a_raf :: nat
  a_transitioned :: bool
  a_children :: bool
  a_count :: int
  a_completed :: bool
  a_resolves :: nat
  a_reports :: "(nid \<times> aid) list"
  a_seq :: nat
  a_tag :: nat
  a_sent :: "nat option"

text \<open>
  \<^verbatim>\<open>interface Context { appear; show; count; completed }\<close>. The store \<^verbatim>\<open>show\<close> is its
  value and its subscribers; \<open>c_completed = None\<close> is the function the context is created
  with, \<open>Some a\<close> the closure installed by activation \<open>a\<close> of the owning node.
  \<open>c_installs\<close> counts the closures installed so far; no statement reads it.
\<close>

record ctx =
  c_appear :: bool
  c_show :: "bool option"
  c_subs :: "nid list"
  c_count :: int
  c_completed :: "aid option"
  c_installs :: nat

text \<open>The value of the variable \<^verbatim>\<open>executing\<close> (\<open>Runes\<close>).\<close>

datatype executing = Undefined | Resolved | OfAct aid

text \<open>
  One component instance. \<open>n_life\<close> says whether the action
  \<^verbatim>\<open>transition\<close> has run on the node and whether it has been destroyed; \<open>n_anc\<close> is the nearest enclosing
  transition component, if any; \<open>n_parent\<close> is the constant \<^verbatim>\<open>parent\<close>; \<open>n_run\<close> is the flag
  \<^verbatim>\<open>run\<close> (\<^verbatim>\<open>initialized\<close> in the \<open>Legacy\<close> text); \<open>n_mounted\<close> is the variable
  \<^verbatim>\<open>mounted\<close>, which the \<open>Slots\<close> text can leave \<^verbatim>\<open>null\<close> (\<open>None\<close>); \<open>n_wrapper\<close> says
  that the wrapping \<^verbatim>\<open>div\<close> is displayed as \<^verbatim>\<open>contents\<close>; \<open>n_el\<close> says that the variable
  \<^verbatim>\<open>el\<close> holds an element, whose class list, inline style and \<^verbatim>\<open>once\<close> listeners for
  \<^verbatim>\<open>transitionend\<close> follow; \<open>n_fresh\<close> says that the slot has been rendered anew since
  \<^verbatim>\<open>el\<close> was bound; \<open>n_classLog\<close> lists the calls made on the class list, each with the
  activation that made it (a record that no statement reads); \<open>n_thens\<close> are the
  callbacks registered by \<^verbatim>\<open>executing.then\<close> and not
  yet run; \<open>n_inbox\<close> are the store values the node has still to be notified of
  (each with the sender's \<open>c_installs\<close> at the time of the \<^verbatim>\<open>set\<close>);
  \<open>n_events\<close> are the component events dispatched so far.
\<close>

text \<open>A call of \<^verbatim>\<open>classList.add\<close> or \<^verbatim>\<open>classList.remove\<close>.\<close>

datatype classop = Add "string list" | Remove "string list"

datatype life = Created | Active | Destroyed

record node =
  n_props :: props
  n_anc :: "nid option"
  n_parent :: "nid option"
  n_context :: ctx
  n_life :: life
  n_run :: bool
  n_mounted :: "bool option"
  n_wrapper :: bool
  n_el :: bool
  n_fresh :: bool
  n_classList :: "string list"
  n_classLog :: "(aid \<times> classop) list"
  n_elDisplay :: string
  n_elVisibility :: string
  n_listeners :: "aid list"
  n_executing :: executing
  n_thens :: "(executing \<times> bool option) list"
  n_inbox :: "(bool option \<times> nat) list"
  n_acts :: "activation list"
  n_events :: "event list"

text \<open>
  The component instances, and the subscribers that the store module still has to call,
  in the order in which \<^verbatim>\<open>set\<close> queued them (\<^verbatim>\<open>subscriber_queue\<close>); the value each is to
  be called with is in its \<open>n_inbox\<close>.
\<close>

record state =
  nodes :: "node list"
  queue :: "nid list"

text \<open>
  How a step can fail: the step is not possible in the state (\<open>NotEnabled\<close>), or a
  statement throws (\<^verbatim>\<open>TypeError\<close> for a property of \<^verbatim>\<open>undefined\<close>, \<^verbatim>\<open>SyntaxError\<close> and
  \<^verbatim>\<open>InvalidCharacterError\<close> from the class list).
\<close>

datatype error = NotEnabled | TypeError | SyntaxError | InvalidCharacterError


section \<open>The instance script\<close>

definition truthy :: "bool option \<Rightarrow> bool" where
  "truthy b = (b = Some True)"

definition the_node :: "state \<Rightarrow> nid \<Rightarrow> node" where
  "the_node s n = nodes s ! n"

definition upd_node :: "nid \<Rightarrow> (node \<Rightarrow> node) \<Rightarrow> state \<Rightarrow> state" where
  "upd_node n f s = s\<lparr>nodes := (nodes s)[n := f (nodes s ! n)]\<rparr>"

definition upd_ctx :: "nid \<Rightarrow> (ctx \<Rightarrow> ctx) \<Rightarrow> state \<Rightarrow> state" where
  "upd_ctx n f s = upd_node n (\<lambda>nd. nd\<lparr>n_context := f (n_context nd)\<rparr>) s"

definition the_act :: "state \<Rightarrow> nid \<Rightarrow> aid \<Rightarrow> activation" where
  "the_act s n a = n_acts (the_node s n) ! a"

definition upd_act :: "nid \<Rightarrow> aid \<Rightarrow> (activation \<Rightarrow> activation) \<Rightarrow> state \<Rightarrow> state" where
  "upd_act n a f s =
     upd_node n (\<lambda>nd. nd\<lparr>n_acts := (n_acts nd)[a := f (n_acts nd ! a)]\<rparr>) s"

text \<open>
  The script of a component instance, run when the component is created inside the
  component \<open>anc\<close> (the nearest enclosing transition, whose context \<^verbatim>\<open>getContext(key)\<close>
  returns):
  \<^verbatim>\<open>const parent = show === null ? getContext<Context>(key) : null
  const context = { appear: parent ? parent.appear : appear, count: 0,
                    show: { subscribe }, completed: () => {} }   // writable(show)
  let display = $state(show && !context.appear ? 'contents' : 'none')    // Runes
  let mounted = $state(!unmount || show === true)                        // Runes
  let initial = show && !appear;  let mounted = !unmount || show         // Slots
  let render = show && !appear                                           // Legacy\<close>
  Only the \<open>Runes\<close> context has the field \<^verbatim>\<open>appear\<close>; for the other texts \<open>c_appear\<close>
  holds the node's own \<^verbatim>\<open>appear\<close> and is read nowhere.
\<close>

definition new_node :: "variant \<Rightarrow> props \<Rightarrow> nid option \<Rightarrow> state \<Rightarrow> node" where
  "new_node v p anc s =
     (let parent = (if p_show p = None then anc else None);
          cappear = (case v of
                       Runes \<Rightarrow> (case parent of
                                   Some q \<Rightarrow> c_appear (n_context (the_node s q))
                                 | None \<Rightarrow> p_appear p)
                     | _ \<Rightarrow> p_appear p)
      in \<lparr> n_props = p,
           n_anc = anc,
           n_parent = parent,
           n_context = \<lparr> c_appear = cappear, c_show = p_show p, c_subs = [],
                         c_count = 0, c_completed = None, c_installs = 0 \<rparr>,
           n_life = Created,
           n_run = False,
           n_mounted = (case v of
                          Runes \<Rightarrow> Some (\<not> p_unmount p \<or> p_show p = Some True)
                        | Slots \<Rightarrow> (if \<not> p_unmount p then Some True else p_show p)
                        | Legacy \<Rightarrow> None),
           n_wrapper = (case v of
                          Runes \<Rightarrow> truthy (p_show p) \<and> \<not> cappear
                        | _ \<Rightarrow> truthy (p_show p) \<and> \<not> p_appear p),
           n_el = False,
           n_fresh = False,
           n_classList = [],
           n_classLog = [],
           n_elDisplay = [],
           n_elVisibility = [],
           n_listeners = [],
           n_executing = Undefined,
           n_thens = [],
           n_inbox = [],
           n_acts = [],
           n_events = [] \<rparr>)"

text \<open>
  Whether the template renders the slot:
  \<^verbatim>\<open>{#if show || !unmount}<slot />{/if}\<close> (\<open>Legacy\<close>), \<^verbatim>\<open>{#if mounted}...{/if}\<close> (the others).
\<close>

definition slot_rendered :: "variant \<Rightarrow> node \<Rightarrow> bool" where
  "slot_rendered v nd =
     (case v of
        Legacy \<Rightarrow> truthy (p_show (n_props nd)) \<or> \<not> p_unmount (n_props nd)
      | _ \<Rightarrow> truthy (n_mounted nd))"


section \<open>The bodies of apply, enter and leave\<close>

text \<open>
  \<^verbatim>\<open>apply\<close>, statement by statement. \<open>Legacy\<close>:
  \<^verbatim>\<open>const completed = childrenCompleted()
  addClasses(base); addClasses(from)
  await nextFrame()
  const transitioned = transitionEnd(base)
  removeClasses(from); addClasses(to)
  await transitioned
  removeClasses(base); removeClasses(to)
  await completed\<close>
  \<open>Slots\<close> and \<open>Runes\<close> (which spreads \<^verbatim>\<open>addClasses(...base, ...from)\<close> and
  \<^verbatim>\<open>removeClasses(...base, ...to)\<close> into one call each):
  \<^verbatim>\<open>el = await ensureMountedElement()
  const completed = new Promise(resolve => { resolveCompleted = resolve })
  const children = childrenCompleted(completed)
  set(show)
  addClasses(base); addClasses(from)
  const transitioned = transitionEnd(base)
  await nextFrame()
  removeClasses(from); addClasses(to)
  await Promise.all([transitioned, children])
  if (parent) { await parent.completed() }
  removeClasses(base); removeClasses(to)
  resolveCompleted()\<close>
\<close>

definition apply_prog ::
  "variant \<Rightarrow> bool \<Rightarrow> bool \<Rightarrow> string list \<Rightarrow> string list \<Rightarrow> string list \<Rightarrow> instr list" where
  "apply_prog v has_parent shw base from to =
     (case v of
        Legacy \<Rightarrow>
          [ChildrenCompleted, AddClasses base, AddClasses from, AwaitNextFrame,
           TransitionEnd base, RemoveClasses from, AddClasses to, AwaitTransitioned,
           RemoveClasses base, RemoveClasses to, AwaitCompleted]
      | Slots \<Rightarrow>
          [AwaitMounted, BindEl, NewCompleted, ChildrenCompleted, SetShow shw,
           AddClasses base, AddClasses from, TransitionEnd base, AwaitNextFrame,
           RemoveClasses from, AddClasses to, AwaitAll]
          @ (if has_parent then [AwaitParentCompleted] else [])
          @ [RemoveClasses base, RemoveClasses to, ResolveCompleted]
      | Runes \<Rightarrow>
          [AwaitMounted, BindEl, NewCompleted, ChildrenCompleted, SetShow shw,
           AddClasses (base @ from), TransitionEnd base, AwaitNextFrame,
           RemoveClasses from, AddClasses to, AwaitAll]
          @ (if has_parent then [AwaitParentCompleted] else [])
          @ [RemoveClasses (base @ to), ResolveCompleted])"

text \<open>
  \<^verbatim>\<open>enter\<close> and \<^verbatim>\<open>leave\<close>, with the body of \<^verbatim>\<open>apply\<close> in the place of
  \<^verbatim>\<open>await apply(...)\<close>; \<open>AwaitApply\<close> is the return of \<^verbatim>\<open>apply\<close> to its awaiting
  caller. The class lists are the reactive values at the time of the call.
\<close>

definition enter_prog :: "variant \<Rightarrow> node \<Rightarrow> instr list" where
  "enter_prog v nd =
     (let p = n_props nd;
          body = apply_prog v (n_parent nd \<noteq> None) True
                   (enterClasses p) (enterFromClasses p) (enterToClasses p)
      in case v of
           Legacy \<Rightarrow>
             [ElDisplay [], ElVisibility [], Dispatch BeforeEnter]
             @ body @ [AwaitApply]
             @ (if n_parent nd \<noteq> None then [AwaitParentCompleted] else [])
             @ [Dispatch AfterEnter]
         | _ \<Rightarrow>
             [Dispatch BeforeEnter, Wrapper True]
             @ body @ [AwaitApply]
             @ [Dispatch AfterEnter])"

definition leave_prog :: "variant \<Rightarrow> node \<Rightarrow> instr list" where
  "leave_prog v nd =
     (let p = n_props nd;
          body = apply_prog v (n_parent nd \<noteq> None) False
                   (leaveClasses p) (leaveFromClasses p) (leaveToClasses p)
      in case v of
           Legacy \<Rightarrow>
             [Dispatch BeforeLeave]
             @ body @ [AwaitApply]
             @ [ElVisibility ''hidden'']
             @ (if n_parent nd \<noteq> None then [AwaitParentCompleted] else [])
             @ [ElDisplay ''none'', Dispatch AfterLeave]
         | _ \<Rightarrow>
             [Dispatch BeforeLeave]
             @ body @ [AwaitApply]
             @ [Wrapper False]
             @ (if p_unmount p then [SetMounted False] else [])
             @ [Dispatch AfterLeave])"

section \<open>The statements\<close>

text \<open>A statement that throws ends the run; otherwise the next one runs.\<close>

fun bind :: "error + 'a \<Rightarrow> ('a \<Rightarrow> error + 'b) \<Rightarrow> error + 'b" where
  "bind (Inl e) f = Inl e"
| "bind (Inr x) f = f x"

text \<open>
  \<^verbatim>\<open>classList.add\<close> and \<^verbatim>\<open>classList.remove\<close> on an ordered set of tokens. Either throws
  a \<^verbatim>\<open>SyntaxError\<close> for an empty token and an \<^verbatim>\<open>InvalidCharacterError\<close> for a token that
  holds ASCII whitespace (tab, line feed, form feed, carriage return, space), and then
  changes nothing.
\<close>

definition whitespace :: "char \<Rightarrow> bool" where
  "whitespace c = (c \<in> {CHR 0x09, CHR 0x0A, CHR 0x0C, CHR 0x0D, CHR 0x20})"

definition token_error :: "string list \<Rightarrow> error option" where
  "token_error cs =
     (if [] \<in> set cs then Some SyntaxError
      else if list_ex (list_ex whitespace) cs then Some InvalidCharacterError
      else None)"

definition add_tokens :: "string list \<Rightarrow> string list \<Rightarrow> string list" where
  "add_tokens cs l = fold (\<lambda>t l. if t \<in> set l then l else l @ [t]) cs l"

definition remove_tokens :: "string list \<Rightarrow> string list \<Rightarrow> string list" where
  "remove_tokens cs l = filter (\<lambda>t. t \<notin> set cs) l"

text \<open>
  \<^verbatim>\<open>set(value)\<close> of the writable store (\<^verbatim>\<open>svelte/store\<close>):
  \<^verbatim>\<open>if (safe_not_equal(value, new_value)) {
    value = new_value
    const run_queue = !subscriber_queue.length
    for (const subscriber of subscribers) subscriber_queue.push(subscriber, value)
    if (run_queue) { /* call the queued subscribers, oldest first, until none is left */ }
  }\<close>
  A value equal to the stored one changes nothing; another one is stored and every
  subscriber is queued with it. The calls of the queued subscribers are the steps
  \<open>Deliver\<close> below; while a subscriber is queued no other step is possible (\<open>step\<close>), so
  that they all run before anything else happens, as they do inside the outermost
  \<^verbatim>\<open>set\<close>. A subscriber called from \<^verbatim>\<open>set\<close> acts on its own component instance only, and
  so do the statements that follow \<^verbatim>\<open>set\<close> in its caller up to the caller's next
  \<^verbatim>\<open>await\<close>; here the caller runs to that \<^verbatim>\<open>await\<close> first.
\<close>

definition store_set :: "nid \<Rightarrow> bool option \<Rightarrow> state \<Rightarrow> state" where
  "store_set n shw s =
     (let c = n_context (the_node s n)
      in if c_show c = shw then s
         else (fold (\<lambda>m. upd_node m
                        (\<lambda>nd. nd\<lparr>n_inbox := n_inbox nd @ [(shw, c_installs c)]\<rparr>))
                 (c_subs c) (upd_ctx n (\<lambda>c. c\<lparr>c_show := shw\<rparr>) s))
              \<lparr>queue := queue s @ c_subs c\<rparr>)"

text \<open>
  \<^verbatim>\<open>childrenCompleted\<close>, called by activation \<open>a\<close> of node \<open>n\<close>:
  \<^verbatim>\<open>return context.count
    ? new Promise<void>(resolve => {
        let count = 0
        context.completed = () => { ... }
      })
    : Promise.resolve()\<close>
\<close>

definition childrenCompleted :: "nid \<Rightarrow> aid \<Rightarrow> state \<Rightarrow> state" where
  "childrenCompleted n a s =
     (if c_count (n_context (the_node s n)) \<noteq> 0
      then upd_ctx n (\<lambda>c. c\<lparr>c_completed := Some a, c_installs := c_installs c + 1\<rparr>)
             (upd_act n a (\<lambda>x. x\<lparr> a_children := False, a_count := 0,
                a_seq := c_installs (n_context (the_node s n)) + 1 \<rparr>) s)
      else upd_act n a (\<lambda>x. x\<lparr>a_children := True\<rparr>) s)"

text \<open>
  The call \<^verbatim>\<open>parent.completed()\<close> made by activation \<open>b\<close> of node \<open>m\<close> on the context of
  node \<open>q\<close>, and what the caller then awaits. The function the context is created with
  returns \<^verbatim>\<open>undefined\<close> (\<^verbatim>\<open>Promise.resolve()\<close> in the \<open>Legacy\<close> text). The installed
  closure is
  \<^verbatim>\<open>() => { if (++count === context.count) { resolve() }  return parentCompleted }\<close>
  and in the \<open>Legacy\<close> text
  \<^verbatim>\<open>() => new Promise<void>(resolve => {
     if (++count === context.count) { resolve() } }).then(resolve)\<close>
  whose result is never resolved for a call that does not reach the count.
\<close>

definition completed :: "variant \<Rightarrow> nid \<Rightarrow> nid \<times> aid \<Rightarrow> state \<Rightarrow> wait \<times> state" where
  "completed v q caller s =
     (case c_completed (n_context (the_node s q)) of
        None \<Rightarrow> (W_Tick, s)
      | Some g \<Rightarrow>
          (let c = a_count (the_act s q g) + 1;
               hit = (c = c_count (n_context (the_node s q)))
           in ((case v of
                  Legacy \<Rightarrow> (if hit then W_Tick else W_Never)
                | _ \<Rightarrow> W_Completed q g),
               upd_act q g (\<lambda>x. x\<lparr> a_count := c,
                                    a_children := (a_children x \<or> hit),
                                    a_resolves := a_resolves x + (if hit then 1 else 0),
                                    a_reports := a_reports x @ [caller] \<rparr>) s)))"

text \<open>
  \<^verbatim>\<open>transitionEnd(transitions)\<close>:
  \<^verbatim>\<open>return transitions.length
    ? new Promise<void>(resolve => el.addEventListener('transitionend', e => {
        e.stopPropagation(); resolve() }, { once: true }))
    : Promise.resolve()\<close>
\<close>

definition transitionEnd :: "nid \<Rightarrow> aid \<Rightarrow> string list \<Rightarrow> state \<Rightarrow> error + state" where
  "transitionEnd n a transitions s =
     (if transitions \<noteq> []
      then (if \<not> n_el (the_node s n) then Inl TypeError
            else Inr (upd_node n (\<lambda>nd. nd\<lparr>n_listeners := n_listeners nd @ [a]\<rparr>)
                        (upd_act n a (\<lambda>x. x\<lparr>a_transitioned := False\<rparr>) s)))
      else Inr (upd_act n a (\<lambda>x. x\<lparr>a_transitioned := True\<rparr>) s))"

text \<open>
  \<^verbatim>\<open>ensureMountedElement\<close> up to its \<^verbatim>\<open>await tick()\<close>:
  \<^verbatim>\<open>if (unmount && !mounted) { mounted = true; await tick() }\<close>
  (\<^verbatim>\<open>mounted === false\<close> in the \<open>Slots\<close> text), and its
  \<^verbatim>\<open>return node.firstElementChild\<close>, assigned to \<^verbatim>\<open>el\<close>. A slot rendered anew gives a
  new element, with no transition classes and no listeners.
\<close>

definition ensureMountedElement :: "variant \<Rightarrow> nid \<Rightarrow> state \<Rightarrow> state" where
  "ensureMountedElement v n s =
     (let nd = the_node s n;
          unmounted = (case v of Slots \<Rightarrow> n_mounted nd = Some False
                               | _ \<Rightarrow> \<not> truthy (n_mounted nd))
      in if p_unmount (n_props nd) \<and> unmounted
         then upd_node n (\<lambda>nd. nd\<lparr>n_mounted := Some True, n_fresh := True\<rparr>) s
         else s)"

definition bind_el :: "variant \<Rightarrow> nid \<Rightarrow> state \<Rightarrow> state" where
  "bind_el v n s =
     upd_node n (\<lambda>nd.
       if n_fresh nd
       then nd\<lparr>n_el := slot_rendered v nd, n_fresh := False,
               n_classList := [], n_listeners := []\<rparr>
       else nd\<lparr>n_el := slot_rendered v nd\<rparr>) s"

text \<open>
  One statement of activation \<open>a\<close> of node \<open>n\<close>. The result is the state after it and,
  for an \<^verbatim>\<open>await\<close>, what the function now waits for. A statement that uses \<^verbatim>\<open>el\<close>
  while it holds no element throws.
\<close>

definition exec :: "variant \<Rightarrow> nid \<Rightarrow> aid \<Rightarrow> instr \<Rightarrow> state \<Rightarrow> error + (wait option \<times> state)" where
  "exec v n a i s =
     (case i of
        Dispatch e \<Rightarrow>
          Inr (None, upd_node n (\<lambda>nd. nd\<lparr>n_events := n_events nd @ [e]\<rparr>) s)
      | ElDisplay d \<Rightarrow>
          (if \<not> n_el (the_node s n) then Inl TypeError
           else Inr (None, upd_node n (\<lambda>nd. nd\<lparr>n_elDisplay := d\<rparr>) s))
      | ElVisibility d \<Rightarrow>
          (if \<not> n_el (the_node s n) then Inl TypeError
           else Inr (None, upd_node n (\<lambda>nd. nd\<lparr>n_elVisibility := d\<rparr>) s))
      | Wrapper b \<Rightarrow> Inr (None, upd_node n (\<lambda>nd. nd\<lparr>n_wrapper := b\<rparr>) s)
      | AwaitMounted \<Rightarrow> Inr (Some W_Tick, ensureMountedElement v n s)
      | BindEl \<Rightarrow> Inr (None, bind_el v n s)
      | NewCompleted \<Rightarrow> Inr (None, upd_act n a (\<lambda>x. x\<lparr>a_completed := False\<rparr>) s)
      | ChildrenCompleted \<Rightarrow> Inr (None, childrenCompleted n a s)
      | SetShow b \<Rightarrow>
          Inr (None, upd_act n a
                 (\<lambda>x. x\<lparr>a_sent := Some (c_installs (n_context (the_node s n)))\<rparr>)
                 (store_set n (Some b) s))
      | AddClasses cs \<Rightarrow>
          (if \<not> n_el (the_node s n) then Inl TypeError
           else if token_error cs \<noteq> None then Inl (the (token_error cs))
           else Inr (None, upd_node n
                       (\<lambda>nd. nd\<lparr> n_classList := add_tokens cs (n_classList nd),
                                n_classLog := n_classLog nd @ [(a, Add cs)] \<rparr>) s))
      | RemoveClasses cs \<Rightarrow>
          (if \<not> n_el (the_node s n) then Inl TypeError
           else if token_error cs \<noteq> None then Inl (the (token_error cs))
           else Inr (None, upd_node n
                       (\<lambda>nd. nd\<lparr> n_classList := remove_tokens cs (n_classList nd),
                                n_classLog := n_classLog nd @ [(a, Remove cs)] \<rparr>) s))
      | TransitionEnd cs \<Rightarrow>
          bind (transitionEnd n a cs s) (\<lambda>s'. Inr (None, s'))
      | AwaitNextFrame \<Rightarrow> Inr (Some W_Frame, upd_act n a (\<lambda>x. x\<lparr>a_raf := 0\<rparr>) s)
      | AwaitTransitioned \<Rightarrow> Inr (Some W_Transitioned, s)
      | AwaitCompleted \<Rightarrow> Inr (Some W_Children, s)
      | AwaitAll \<Rightarrow> Inr (Some W_All, s)
      | AwaitParentCompleted \<Rightarrow>
          (case n_parent (the_node s n) of
             None \<Rightarrow> Inr (None, s)
           | Some q \<Rightarrow> (case completed v q (n, a) s of (w, s') \<Rightarrow> Inr (Some w, s')))
      | ResolveCompleted \<Rightarrow> Inr (None, upd_act n a (\<lambda>x. x\<lparr>a_completed := True\<rparr>) s)
      | AwaitApply \<Rightarrow> Inr (Some W_Tick, s)
      | SetMounted b \<Rightarrow> Inr (None, upd_node n (\<lambda>nd. nd\<lparr>n_mounted := Some b\<rparr>) s))"


section \<open>Asynchronous functions and the steps of the environment\<close>

text \<open>
  An asynchronous function runs its statements in order up to the next \<^verbatim>\<open>await\<close>,
  where it suspends; it continues after the awaited promise is resolved.
\<close>

fun run_from :: "variant \<Rightarrow> nid \<Rightarrow> aid \<Rightarrow> instr list \<Rightarrow> state \<Rightarrow> error + state"
  and run_next ::
    "variant \<Rightarrow> nid \<Rightarrow> aid \<Rightarrow> instr list \<Rightarrow> error + (wait option \<times> state) \<Rightarrow> error + state"
where
  "run_from v n a [] s = Inr s"
| "run_from v n a (i # is) s = run_next v n a is (exec v n a i s)"
| "run_next v n a is (Inl e) = Inl e"
| "run_next v n a is (Inr (None, s')) =
     run_from v n a is (upd_act n a (\<lambda>x. x\<lparr>a_pc := a_pc x + 1\<rparr>) s')"
| "run_next v n a is (Inr (Some w, s')) = Inr (upd_act n a (\<lambda>x. x\<lparr>a_wait := Some w\<rparr>) s')"

text \<open>
  The statements of an activation. The inputs other than \<^verbatim>\<open>show\<close> do not change, so
  the class lists are those the call was made with.
\<close>

definition prog :: "variant \<Rightarrow> node \<Rightarrow> activation \<Rightarrow> instr list" where
  "prog v nd x = (if a_enter x then enter_prog v nd else leave_prog v nd)"

definition continue :: "variant \<Rightarrow> nid \<Rightarrow> aid \<Rightarrow> state \<Rightarrow> error + state" where
  "continue v n a s =
     (let x = the_act s n a
      in run_from v n a (drop (a_pc x) (prog v (the_node s n) x)) s)"

definition new_act :: "bool \<Rightarrow> nat \<Rightarrow> activation" where
  "new_act shw tag =
     \<lparr> a_enter = shw, a_pc = 0, a_wait = None, a_raf = 0, a_transitioned = False,
       a_children = False, a_count = 0, a_completed = False, a_resolves = 0,
       a_reports = [], a_seq = 0, a_tag = tag, a_sent = None \<rparr>"

text \<open>The call \<^verbatim>\<open>show ? enter() : leave()\<close>: a new activation, run to its first \<^verbatim>\<open>await\<close>.\<close>

definition start :: "variant \<Rightarrow> nid \<Rightarrow> bool \<Rightarrow> nat \<Rightarrow> state \<Rightarrow> error + state" where
  "start v n shw tag s =
     continue v n (length (n_acts (the_node s n)))
       (upd_node n (\<lambda>nd. nd\<lparr>n_acts := n_acts nd @ [new_act shw tag]\<rparr>) s)"

definition finished :: "variant \<Rightarrow> node \<Rightarrow> activation \<Rightarrow> bool" where
  "finished v nd x = (a_pc x = length (prog v nd x))"

text \<open>The record \<open>a_sent\<close> of activation \<open>a\<close> of node \<open>n\<close>, if there is such an activation.\<close>

definition sent :: "nid \<Rightarrow> aid \<Rightarrow> state \<Rightarrow> state" where
  "sent n a s =
     upd_act n a (\<lambda>x. x\<lparr>a_sent := Some (c_installs (n_context (the_node s n)))\<rparr>) s"

text \<open>
  \<^verbatim>\<open>execute(show)\<close>; \<open>tag\<close> goes into the record \<open>a_tag\<close> of the activation it
  starts. \<open>Legacy\<close>:
  \<^verbatim>\<open>if (!initialized) {
    render = true
    el.style.display = show ? appear ? 'none' : '' : appear ? '' : 'none'
  }
  if (initialized || appear) { if (show) { enter() } else { leave() } }
  context.show.set(show)
  initialized = true\<close>
  \<open>Slots\<close>:
  \<^verbatim>\<open>if (run) { show ? enter() : leave() }
  run = true\<close>
  \<open>Runes\<close>:
  \<^verbatim>\<open>executing = run ? show ? enter() : leave() : Promise.resolve()
  run = true\<close>
\<close>

definition execute :: "variant \<Rightarrow> nid \<Rightarrow> bool option \<Rightarrow> nat \<Rightarrow> state \<Rightarrow> error + state" where
  "execute v n shw tag s =
     (let nd = the_node s n; appear = p_appear (n_props nd)
      in case v of
           Legacy \<Rightarrow>
             (if \<not> n_run nd \<and> \<not> n_el nd then Inl TypeError
              else
                (let s1 = (if \<not> n_run nd
                           then upd_node n (\<lambda>nd. nd\<lparr> n_wrapper := True,
                                  n_elDisplay :=
                                    (if truthy shw then (if appear then ''none'' else [])
                                     else (if appear then [] else ''none'')) \<rparr>) s
                           else s)
                 in bind (if n_run nd \<or> appear then start v n (truthy shw) tag s1 else Inr s1)
                      (\<lambda>s2. Inr (upd_node n (\<lambda>nd. nd\<lparr>n_run := True\<rparr>)
                                   (sent n (length (n_acts nd)) (store_set n shw s2))))))
         | Slots \<Rightarrow>
             bind (if n_run nd then start v n (truthy shw) tag s else Inr s)
               (\<lambda>s1. Inr (upd_node n (\<lambda>nd. nd\<lparr>n_run := True\<rparr>) s1))
         | Runes \<Rightarrow>
             (if n_run nd
              then bind (start v n (truthy shw) tag s)
                     (\<lambda>s1. Inr (upd_node n
                             (\<lambda>x. x\<lparr> n_executing := OfAct (length (n_acts nd)),
                                      n_run := True \<rparr>) s1))
              else Inr (upd_node n (\<lambda>x. x\<lparr>n_executing := Resolved, n_run := True\<rparr>) s)))"

text \<open>
  The action \<^verbatim>\<open>transition(node, show)\<close>, run when the wrapper is mounted:
  \<^verbatim>\<open>let run = context.appear        // appear in Slots; initialized = false in Legacy
  if (parent) {
    parent.count++
    unsubscribe = parent.show.subscribe(execute)   // calls execute(value) at once
  } else {
    execute(show)
  }\<close>
  The \<open>Legacy\<close> text binds \<^verbatim>\<open>el = node.firstElementChild\<close> here.
\<close>

definition init :: "variant \<Rightarrow> nid \<Rightarrow> state \<Rightarrow> error + state" where
  "init v n s =
     (if n < length (nodes s) \<and> n_life (the_node s n) = Created
      then
        (let nd = the_node s n;
             s1 = upd_node n (\<lambda>nd. nd\<lparr> n_life := Active,
                    n_run := (case v of Legacy \<Rightarrow> False
                                      | Slots \<Rightarrow> p_appear (n_props nd)
                                      | Runes \<Rightarrow> c_appear (n_context nd)),
                    n_el := (case v of Legacy \<Rightarrow> slot_rendered v nd | _ \<Rightarrow> n_el nd) \<rparr>) s
         in case n_parent nd of
              Some q \<Rightarrow>
                execute v n (c_show (n_context (the_node s q)))
                  (c_installs (n_context (the_node s q)))
                  (upd_ctx q (\<lambda>c. c\<lparr>c_count := c_count c + 1, c_subs := c_subs c @ [n]\<rparr>) s1)
            | None \<Rightarrow> execute v n (p_show (n_props nd)) 0 s1)
      else Inl NotEnabled)"

text \<open>
  \<^verbatim>\<open>update(show)\<close>, called when the input \<^verbatim>\<open>show\<close> has changed: \<^verbatim>\<open>execute(show)\<close> in the
  \<open>Legacy\<close> and \<open>Slots\<close> texts, \<^verbatim>\<open>executing.then(() => execute(show))\<close> in \<open>Runes\<close>.
\<close>

definition update :: "variant \<Rightarrow> nid \<Rightarrow> bool option \<Rightarrow> state \<Rightarrow> error + state" where
  "update v n shw s =
     (if n < length (nodes s) \<and> n_life (the_node s n) = Active
      then
        (let s1 = upd_node n (\<lambda>nd. nd\<lparr>n_props := (n_props nd)\<lparr>p_show := shw\<rparr>\<rparr>) s
         in case v of
              Runes \<Rightarrow>
                (if n_executing (the_node s n) = Undefined then Inl TypeError
                 else Inr (upd_node n
                        (\<lambda>nd. nd\<lparr>n_thens := n_thens nd @ [(n_executing nd, shw)]\<rparr>) s1))
            | _ \<Rightarrow> execute v n shw 0 s1)
      else Inl NotEnabled)"

text \<open>
  \<^verbatim>\<open>destroy()\<close>: \<^verbatim>\<open>if (parent) { unsubscribe(); parent.count-- }\<close>.
\<close>

definition destroy :: "nid \<Rightarrow> state \<Rightarrow> error + state" where
  "destroy n s =
     (if n < length (nodes s) \<and> n_life (the_node s n) = Active
      then
        (let s1 = upd_node n (\<lambda>nd. nd\<lparr>n_life := Destroyed\<rparr>) s
         in case n_parent (the_node s n) of
              Some q \<Rightarrow>
                Inr (upd_ctx q (\<lambda>c. c\<lparr>c_subs := removeAll n (c_subs c),
                                      c_count := c_count c - 1\<rparr>) s1)
            | None \<Rightarrow> Inr s1)
      else Inl NotEnabled)"

text \<open>
  The call of the oldest queued subscriber, which is the \<^verbatim>\<open>execute\<close> of node \<open>n\<close>, with the
  value it was queued with.
\<close>

definition deliver :: "variant \<Rightarrow> nid \<Rightarrow> state \<Rightarrow> error + state" where
  "deliver v n s =
     (if n < length (nodes s) \<and> n_life (the_node s n) = Active \<and> take 1 (queue s) = [n]
      then (case n_inbox (the_node s n) of
              [] \<Rightarrow> Inl NotEnabled
            | (shw, tag) # rest \<Rightarrow>
                execute v n shw tag
                  (upd_node n (\<lambda>nd. nd\<lparr>n_inbox := tl (n_inbox nd)\<rparr>)
                     (s\<lparr>queue := tl (queue s)\<rparr>)))
      else Inl NotEnabled)"

text \<open>Whether an awaited promise is resolved.\<close>

definition ready :: "state \<Rightarrow> activation \<Rightarrow> wait \<Rightarrow> bool" where
  "ready s x w =
     (case w of
        W_Tick \<Rightarrow> True
      | W_Frame \<Rightarrow> a_raf x = 2
      | W_Transitioned \<Rightarrow> a_transitioned x
      | W_Children \<Rightarrow> a_children x
      | W_All \<Rightarrow> a_transitioned x \<and> a_children x
      | W_Completed q g \<Rightarrow> a_completed (the_act s q g)
      | W_Never \<Rightarrow> False)"

definition resume :: "variant \<Rightarrow> nid \<Rightarrow> aid \<Rightarrow> state \<Rightarrow> error + state" where
  "resume v n a s =
     (if n < length (nodes s) \<and> a < length (n_acts (the_node s n))
      then (case a_wait (the_act s n a) of
              None \<Rightarrow> Inl NotEnabled
            | Some w \<Rightarrow>
                if ready s (the_act s n a) w
                then continue v n a
                       (upd_act n a (\<lambda>x. x\<lparr>a_wait := None, a_pc := a_pc x + 1\<rparr>) s)
                else Inl NotEnabled)
      else Inl NotEnabled)"

text \<open>
  The promise returned by \<^verbatim>\<open>enter()\<close> or \<^verbatim>\<open>leave()\<close> is resolved when the function has
  run to its end; a callback registered with \<^verbatim>\<open>then\<close> runs after that.
\<close>

definition settled :: "variant \<Rightarrow> state \<Rightarrow> nid \<Rightarrow> executing \<Rightarrow> bool" where
  "settled v s n e =
     (case e of
        Undefined \<Rightarrow> False
      | Resolved \<Rightarrow> True
      | OfAct a \<Rightarrow> finished v (the_node s n) (the_act s n a))"

definition then_callback :: "variant \<Rightarrow> nid \<Rightarrow> nat \<Rightarrow> state \<Rightarrow> error + state" where
  "then_callback v n k s =
     (if n < length (nodes s) \<and> k < length (n_thens (the_node s n))
      then (case n_thens (the_node s n) ! k of
              (e, shw) \<Rightarrow>
                if settled v s n e
                then execute v n shw 0
                       (upd_node n (\<lambda>nd. nd\<lparr>n_thens := take k (n_thens nd)
                                                    @ drop (Suc k) (n_thens nd)\<rparr>) s)
                else Inl NotEnabled)
      else Inl NotEnabled)"

text \<open>
  One animation frame: every pending \<^verbatim>\<open>nextFrame()\<close>, that is
  \<^verbatim>\<open>new Promise(resolve => raf(() => raf(resolve)))\<close>, gets one callback closer; the
  second callback resolves it.
\<close>

definition frame_act :: "activation \<Rightarrow> activation" where
  "frame_act x = (if a_wait x = Some W_Frame \<and> a_raf x < 2 then x\<lparr>a_raf := a_raf x + 1\<rparr> else x)"

definition animation_frame :: "state \<Rightarrow> state" where
  "animation_frame s =
     s\<lparr>nodes := map (\<lambda>nd. nd\<lparr>n_acts := map frame_act (n_acts nd)\<rparr>) (nodes s)\<rparr>"

text \<open>
  A native \<^verbatim>\<open>transitionend\<close> event whose propagation path goes through the elements of
  the nodes \<open>ns\<close>, innermost first. The listeners of the first element that has any are
  called and, being registered with \<^verbatim>\<open>once\<close>, removed; each of them resolves its promise
  and calls \<^verbatim>\<open>stopPropagation\<close>, so the event goes no further.
\<close>

fun transition_end :: "nid list \<Rightarrow> state \<Rightarrow> state" where
  "transition_end [] s = s"
| "transition_end (n # ns) s =
     (if n_listeners (the_node s n) = [] then transition_end ns s
      else fold (\<lambda>a. upd_act n a (\<lambda>x. x\<lparr>a_transitioned := True\<rparr>))
             (n_listeners (the_node s n))
             (upd_node n (\<lambda>nd. nd\<lparr>n_listeners := []\<rparr>) s))"

fun chain :: "state \<Rightarrow> nid list \<Rightarrow> bool" where
  "chain s [] = True"
| "chain s [n] = (n < length (nodes s))"
| "chain s (n # m # ns) =
     (n < length (nodes s) \<and> n_anc (the_node s n) = Some m \<and> chain s (m # ns))"

datatype label =
    Create props "nid option"
  | Init nid
  | Update nid "bool option"
  | Destroy nid
  | Deliver nid
  | Resume nid aid
  | Then nid nat
  | AnimationFrame
  | NativeTransitionEnd "nid list"

text \<open>
  One step. While the store module has subscribers to call, the next step is the call
  of the oldest of them.
\<close>

definition step :: "variant \<Rightarrow> label \<Rightarrow> state \<Rightarrow> error + state" where
  "step v l s =
     (if queue s \<noteq> [] \<and> l \<noteq> Deliver (hd (queue s)) then Inl NotEnabled
      else case l of
        Create p anc \<Rightarrow>
          (if (case anc of None \<Rightarrow> True | Some q \<Rightarrow> q < length (nodes s))
           then Inr (s\<lparr>nodes := nodes s @ [new_node v p anc s]\<rparr>)
           else Inl NotEnabled)
      | Init n \<Rightarrow> init v n s
      | Update n shw \<Rightarrow> update v n shw s
      | Destroy n \<Rightarrow> destroy n s
      | Deliver n \<Rightarrow> deliver v n s
      | Resume n a \<Rightarrow> resume v n a s
      | Then n k \<Rightarrow> then_callback v n k s
      | AnimationFrame \<Rightarrow> Inr (animation_frame s)
      | NativeTransitionEnd ns \<Rightarrow>
          (if ns \<noteq> [] \<and> chain s ns then Inr (transition_end ns s) else Inl NotEnabled))"

fun run :: "variant \<Rightarrow> label list \<Rightarrow> state \<Rightarrow> error + state" where
  "run v [] s = Inr s"
| "run v (l # ls) s = bind (step v l s) (run v ls)"

definition empty_state :: state where
  "empty_state = \<lparr>nodes = [], queue = []\<rparr>"


section \<open>The steps in detail\<close>

text \<open>
  What a node keeps for life: its inputs other than \<^verbatim>\<open>show\<close>, its parent and the
  component around it.
\<close>

definition static :: "node \<Rightarrow> props \<times> nid option \<times> nid option" where
  "static nd = ((n_props nd)\<lparr>p_show := None\<rparr>, n_parent nd, n_anc nd)"

text \<open>
  A change of a node that leaves its activations, its context, its log and what it
  keeps for life alone, and adds nothing to its inbox.
\<close>

definition harmless :: "(node \<Rightarrow> node) \<Rightarrow> bool" where
  "harmless f =
     (\<forall>nd. n_acts (f nd) = n_acts nd \<and> n_context (f nd) = n_context nd
         \<and> n_classLog (f nd) = n_classLog nd \<and> static (f nd) = static nd
         \<and> set (n_inbox (f nd)) \<subseteq> set (n_inbox nd))"

text \<open>
  Every step of \<open>step\<close> is made of the following smaller ones (\<open>step_micro\<close> below);
  what holds after each of them holds in every state that \<open>run\<close> reaches.
\<close>

inductive micro :: "variant \<Rightarrow> state \<Rightarrow> state \<Rightarrow> bool" for v :: variant where
  mi_local: "harmless f \<Longrightarrow> micro v s (upd_node n f s)"
| mi_create:
    "(case anc of None \<Rightarrow> True | Some q \<Rightarrow> q < length (nodes s)) \<Longrightarrow>
     micro v s (s\<lparr>nodes := nodes s @ [new_node v p anc s]\<rparr>)"
| mi_spawn:
    "n < length (nodes s) \<Longrightarrow>
     (case n_parent (the_node s n) of
        None \<Rightarrow> True
      | Some q \<Rightarrow> t \<le> c_installs (n_context (the_node s q))) \<Longrightarrow>
     micro v s (upd_node n (\<lambda>nd. nd\<lparr>n_acts := n_acts nd @ [new_act e t]\<rparr>) s)"
| mi_exec:
    "n < length (nodes s) \<Longrightarrow> a < length (n_acts (the_node s n)) \<Longrightarrow>
     a_wait (the_act s n a) = None \<Longrightarrow>
     a_pc (the_act s n a) < length (prog v (the_node s n) (the_act s n a)) \<Longrightarrow>
     exec v n a (prog v (the_node s n) (the_act s n a) ! a_pc (the_act s n a)) s
       = Inr (None, s1) \<Longrightarrow>
     micro v s (upd_act n a (\<lambda>x. x\<lparr>a_pc := a_pc x + 1\<rparr>) s1)"
| mi_await:
    "n < length (nodes s) \<Longrightarrow> a < length (n_acts (the_node s n)) \<Longrightarrow>
     a_wait (the_act s n a) = None \<Longrightarrow>
     a_pc (the_act s n a) < length (prog v (the_node s n) (the_act s n a)) \<Longrightarrow>
     exec v n a (prog v (the_node s n) (the_act s n a) ! a_pc (the_act s n a)) s
       = Inr (Some w, s1) \<Longrightarrow>
     micro v s (upd_act n a (\<lambda>x. x\<lparr>a_wait := Some w\<rparr>) s1)"
| mi_resume:
    "n < length (nodes s) \<Longrightarrow> a < length (n_acts (the_node s n)) \<Longrightarrow>
     a_wait (the_act s n a) = Some w \<Longrightarrow> ready s (the_act s n a) w \<Longrightarrow>
     micro v s (upd_act n a (\<lambda>x. x\<lparr>a_wait := None, a_pc := a_pc x + 1\<rparr>) s)"
| mi_subscribe:
    "n < length (nodes s) \<Longrightarrow> n_parent (the_node s n) = Some q \<Longrightarrow>
     micro v s (upd_ctx q (\<lambda>c. c\<lparr>c_count := c_count c + 1, c_subs := c_subs c @ [n]\<rparr>) s)"
| mi_unsubscribe:
    "n < length (nodes s) \<Longrightarrow> n_parent (the_node s n) = Some q \<Longrightarrow>
     micro v s (upd_ctx q (\<lambda>c. c\<lparr>c_subs := removeAll n (c_subs c),
                                   c_count := c_count c - 1\<rparr>) s)"
| mi_set: "micro v s (store_set n shw s)"
| mi_sent:
    "(n < length (nodes s) \<and> a < length (n_acts (the_node s n)) \<longrightarrow>
        ChildrenCompleted \<in> set (take (a_pc (the_act s n a))
                                   (prog v (the_node s n) (the_act s n a)))) \<Longrightarrow>
     micro v s (sent n a s)"
| mi_queue: "micro v s (s\<lparr>queue := q\<rparr>)"
| mi_frame: "micro v s (animation_frame s)"
| mi_end: "micro v s (transition_end ns s)"

text \<open>
  A tag is in order for a node when it is at most the number of closures installed on
  the parent's context.
\<close>

definition tag_ok :: "state \<Rightarrow> nid \<Rightarrow> nat \<Rightarrow> bool" where
  "tag_ok s n t =
     (case n_parent (the_node s n) of
        None \<Rightarrow> True
      | Some q \<Rightarrow> t \<le> c_installs (n_context (the_node s q)))"

definition tags_ok :: "state \<Rightarrow> bool" where
  "tags_ok s =
     (\<forall>n < length (nodes s). \<forall>e \<in> set (n_inbox (the_node s n)). tag_ok s n (snd e))"

text \<open>The statements an activation has completed.\<close>

definition past :: "variant \<Rightarrow> node \<Rightarrow> activation \<Rightarrow> instr list" where
  "past v nd x = take (a_pc x) (prog v nd x)"

text \<open>The calls on the class list that the log holds for activation \<open>a\<close>.\<close>

definition class_calls :: "node \<Rightarrow> aid \<Rightarrow> classop list" where
  "class_calls nd a = map snd (filter (\<lambda>e. fst e = a) (n_classLog nd))"

definition class_op :: "instr \<Rightarrow> classop list" where
  "class_op i = (case i of AddClasses cs \<Rightarrow> [Add cs] | RemoveClasses cs \<Rightarrow> [Remove cs] | _ \<Rightarrow> [])"

text \<open>The statements at which an asynchronous function can suspend.\<close>

definition can_await :: "instr \<Rightarrow> bool" where
  "can_await i = (i \<in> {AwaitMounted, AwaitNextFrame, AwaitTransitioned, AwaitCompleted,
     AwaitAll, AwaitParentCompleted, AwaitApply})"

text \<open>What each awaiting statement waits for.\<close>

definition awaits :: "instr \<Rightarrow> wait \<Rightarrow> bool" where
  "awaits i w =
     (case i of
        AwaitNextFrame \<Rightarrow> w = W_Frame
      | AwaitAll \<Rightarrow> w = W_All
      | AwaitTransitioned \<Rightarrow> w = W_Transitioned
      | AwaitCompleted \<Rightarrow> w = W_Children
      | _ \<Rightarrow> True)"

text \<open>
  An activation is in order when it has got past an \<^verbatim>\<open>await\<close> only with the awaited
  promise resolved: past \<^verbatim>\<open>nextFrame()\<close> only after two animation frames, past
  \<^verbatim>\<open>Promise.all([transitioned, children])\<close> only with both resolved, and likewise for
  the two separate awaits of the \<open>Legacy\<close> text.
\<close>

definition act_ok :: "variant \<Rightarrow> node \<Rightarrow> activation \<Rightarrow> bool" where
  "act_ok v nd x =
     (a_pc x \<le> length (prog v nd x)
      \<and> (\<forall>w. a_wait x = Some w \<longrightarrow>
             a_pc x < length (prog v nd x) \<and> awaits (prog v nd x ! a_pc x) w)
      \<and> (AwaitNextFrame \<in> set (past v nd x) \<longrightarrow> a_raf x = 2)
      \<and> (AwaitAll \<in> set (past v nd x) \<longrightarrow> a_transitioned x \<and> a_children x)
      \<and> (AwaitTransitioned \<in> set (past v nd x) \<longrightarrow> a_transitioned x)
      \<and> (AwaitCompleted \<in> set (past v nd x) \<longrightarrow> a_children x))"

text \<open>The log holds, for an activation, the calls of the statements it has completed.\<close>

definition log_ok :: "variant \<Rightarrow> node \<Rightarrow> aid \<Rightarrow> activation \<Rightarrow> bool" where
  "log_ok v nd a x = (class_calls nd a = concat (map class_op (past v nd x)))"

definition inv_act :: "variant \<Rightarrow> state \<Rightarrow> bool" where
  "inv_act v s =
     (\<forall>n < length (nodes s).
        (\<forall>e \<in> set (n_classLog (the_node s n)). fst e < length (n_acts (the_node s n)))
      \<and> (\<forall>a < length (n_acts (the_node s n)).
            act_ok v (the_node s n) (the_act s n a)
          \<and> log_ok v (the_node s n) a (the_act s n a)))"

text \<open>
  An activation has got past its joint wait: past \<^verbatim>\<open>Promise.all([transitioned, children])\<close>,
  or, in the \<open>Legacy\<close> text, past both \<^verbatim>\<open>await transitioned\<close> and \<^verbatim>\<open>await completed\<close>.
\<close>

definition joined :: "variant \<Rightarrow> node \<Rightarrow> activation \<Rightarrow> bool" where
  "joined v nd x =
     (if v = Legacy
      then AwaitTransitioned \<in> set (past v nd x) \<and> AwaitCompleted \<in> set (past v nd x)
      else AwaitAll \<in> set (past v nd x))"

text \<open>
  The tree is in order: a parent is older than its child, the subscribers of a store are
  children of its node, an installed closure belongs to an activation of the node, and
  the callers recorded at a gate are activations of children, as many as the gate has
  counted.
\<close>

definition inv_tree :: "state \<Rightarrow> bool" where
  "inv_tree s =
     (\<forall>n < length (nodes s).
        (\<forall>q. n_parent (the_node s n) = Some q \<longrightarrow> q < n)
      \<and> (\<forall>m \<in> set (c_subs (n_context (the_node s n))).
            m < length (nodes s) \<and> n_parent (the_node s m) = Some n)
      \<and> (\<forall>g. c_completed (n_context (the_node s n)) = Some g \<longrightarrow>
            g < length (n_acts (the_node s n)))
      \<and> (\<forall>a < length (n_acts (the_node s n)).
            a_count (the_act s n a) = int (length (a_reports (the_act s n a)))
          \<and> (\<forall>r \<in> set (a_reports (the_act s n a)).
                fst r < length (nodes s)
              \<and> snd r < length (n_acts (the_node s (fst r)))
              \<and> n_parent (the_node s (fst r)) = Some n)))"

text \<open>
  The gates are in order: the installed closure is the last one installed; tags are at
  most the number of closures installed at the parent; an activation that has set its
  value on the store had called \<^verbatim>\<open>childrenCompleted\<close> before, and the tag it sent is at
  least the number of its own closure; and every caller recorded at a gate had got past
  its own joint wait and was started by a value sent no earlier than the gate was
  installed.
\<close>

definition inv_gate :: "variant \<Rightarrow> state \<Rightarrow> bool" where
  "inv_gate v s =
     (\<forall>n < length (nodes s).
        (\<forall>e \<in> set (n_inbox (the_node s n)). tag_ok s n (snd e))
      \<and> (\<forall>g. c_completed (n_context (the_node s n)) = Some g \<longrightarrow>
            a_seq (the_act s n g) = c_installs (n_context (the_node s n))
          \<and> ChildrenCompleted \<in> set (past v (the_node s n) (the_act s n g)))
      \<and> (\<forall>a < length (n_acts (the_node s n)).
            tag_ok s n (a_tag (the_act s n a))
          \<and> a_seq (the_act s n a) \<le> c_installs (n_context (the_node s n))
          \<and> (\<forall>t. a_sent (the_act s n a) = Some t \<longrightarrow>
                ChildrenCompleted \<in> set (past v (the_node s n) (the_act s n a))
              \<and> a_seq (the_act s n a) \<le> t)
          \<and> (a_reports (the_act s n a) \<noteq> [] \<longrightarrow>
                ChildrenCompleted \<in> set (past v (the_node s n) (the_act s n a)))
          \<and> (\<forall>r \<in> set (a_reports (the_act s n a)).
                joined v (the_node s (fst r)) (the_act s (fst r) (snd r))
              \<and> a_tag (the_act s (fst r) (snd r)) \<le> a_seq (the_act s n a))))"

text \<open>The calls on the class list that \<^verbatim>\<open>apply(base, from, to)\<close> makes, in their order.\<close>

definition class_seq :: "variant \<Rightarrow> string list \<Rightarrow> string list \<Rightarrow> string list \<Rightarrow> classop list" where
  "class_seq v base from to =
     (case v of
        Runes \<Rightarrow> [Add (base @ from), Remove from, Add to, Remove (base @ to)]
      | _ \<Rightarrow> [Add base, Add from, Remove from, Add to, Remove base, Remove to])"

text \<open>Successive calls of \<^verbatim>\<open>context.completed()\<close> on the context of node \<open>q\<close>.\<close>

fun reports :: "variant \<Rightarrow> nid \<Rightarrow> (nid \<times> aid) list \<Rightarrow> state \<Rightarrow> state" where
  "reports v q [] s = s"
| "reports v q (c # cs) s = reports v q cs (snd (completed v q c s))"

section \<open>The first call of execute\<close>

text \<open>
  The flag that decides whether the first call of \<^verbatim>\<open>execute\<close> runs a transition:
  \<^verbatim>\<open>let run = context.appear\<close> (\<open>Runes\<close>), \<^verbatim>\<open>let run = appear\<close> (\<open>Slots\<close>), and
  \<^verbatim>\<open>initialized || appear\<close> with \<^verbatim>\<open>initialized = false\<close> (\<open>Legacy\<close>).
\<close>

definition first_run :: "variant \<Rightarrow> node \<Rightarrow> bool" where
  "first_run v nd =
     (case v of Runes \<Rightarrow> c_appear (n_context nd) | _ \<Rightarrow> p_appear (n_props nd))"

text \<open>
  The value that the action's first call of \<^verbatim>\<open>execute\<close> gets: the parent's store value
  for a child, the input \<^verbatim>\<open>show\<close> otherwise.
\<close>

definition shown :: "state \<Rightarrow> nid \<Rightarrow> bool option" where
  "shown s n =
     (case n_parent (the_node s n) of
        Some q \<Rightarrow> c_show (n_context (the_node s q))
      | None \<Rightarrow> p_show (n_props (the_node s n)))"


definition before :: "bool \<Rightarrow> event" where
  "before shw = (if shw then BeforeEnter else BeforeLeave)"



text \<open>
  The action has run on node \<open>n\<close> and has made its first call of \<^verbatim>\<open>execute\<close>, which sets
  the flag \<^verbatim>\<open>run\<close> (\<^verbatim>\<open>initialized\<close>).
\<close>

definition started :: "state \<Rightarrow> nid \<Rightarrow> bool" where
  "started s n = (n < length (nodes s) \<and> n_life (the_node s n) \<noteq> Created \<and> n_run (the_node s n))"


section \<open>Example trees\<close>

definition the_state :: "error + state \<Rightarrow> state" where
  "the_state r = (case r of Inr s \<Rightarrow> s | Inl e \<Rightarrow> empty_state)"

definition ok :: "error + state \<Rightarrow> bool" where
  "ok r = (case r of Inr s \<Rightarrow> True | Inl e \<Rightarrow> False)"

text \<open>A top-level transition, hidden at first, and a child transition without classes.\<close>

definition root_props :: props where
  "root_props =
     \<lparr> p_show = Some False, p_appear = False, p_unmount = False,
       p_enter = ''a'', p_enterFrom = ''b'', p_enterTo = ''c'',
       p_leave = None, p_leaveFrom = None, p_leaveTo = None \<rparr>"

definition child_props :: props where
  "child_props =
     \<lparr> p_show = None, p_appear = False, p_unmount = False,
       p_enter = [], p_enterFrom = [], p_enterTo = [],
       p_leave = None, p_leaveFrom = None, p_leaveTo = None \<rparr>"

text \<open>
  A root with two children; the root is shown and its \<^verbatim>\<open>enter\<close> has reached the call
  of \<^verbatim>\<open>childrenCompleted\<close>.
\<close>

definition two_children :: "label list" where
  "two_children =
     [Create root_props None, Create child_props (Some 0), Create child_props (Some 0),
      Init 1, Init 2, Init 0, Update 0 (Some True), Then 0 0]"

text \<open>
  The same tree once the root's gate is installed (the count is two) and the store has
  queued the two children, and once it has called them.
\<close>

definition gate_installed :: "label list" where
  "gate_installed = two_children @ [Resume 0 0]"

definition children_called :: "label list" where
  "children_called = gate_installed @ [Deliver 1, Deliver 2]"

text \<open>
  Then the second child is destroyed, and the first child runs its \<^verbatim>\<open>enter\<close> through two
  animation frames and calls \<^verbatim>\<open>parent.completed()\<close>.
\<close>

definition child_torn_down :: "label list" where
  "child_torn_down =
     children_called
     @ [Destroy 2, Resume 1 0, AnimationFrame, AnimationFrame, Resume 1 0, Resume 1 0]"

text \<open>
  A root with one child, shown, with its gate installed (the count is one) and the child
  called; then a second child is created and mounted inside the root, and the first
  child runs its \<^verbatim>\<open>enter\<close> and calls \<^verbatim>\<open>parent.completed()\<close>.
\<close>

definition one_child :: "label list" where
  "one_child =
     [Create root_props None, Create child_props (Some 0), Init 1, Init 0,
      Update 0 (Some True), Then 0 0, Resume 0 0, Deliver 1]"

definition child_created :: "label list" where
  "child_created = one_child @ [Create child_props (Some 0)]"

definition child_added :: "label list" where
  "child_added =
     child_created
     @ [Init 2, Resume 1 0, AnimationFrame, AnimationFrame, Resume 1 0, Resume 1 0]"

text \<open>
  A shown top-level transition with \<^verbatim>\<open>appear\<close> that has a child without \<^verbatim>\<open>appear\<close>, and a
  shown top-level transition without \<^verbatim>\<open>appear\<close>.
\<close>

definition appear_root_props :: props where
  "appear_root_props = root_props\<lparr>p_show := Some True, p_appear := True\<rparr>"

definition shown_root_props :: props where
  "shown_root_props = root_props\<lparr>p_show := Some True\<rparr>"


text \<open>A hidden top-level transition with \<^verbatim>\<open>unmount\<close> and \<^verbatim>\<open>appear\<close>, mounted.\<close>

definition unmount_props :: props where
  "unmount_props =
     \<lparr> p_show = Some False, p_appear = True, p_unmount = True,
       p_enter = [], p_enterFrom = [], p_enterTo = [],
       p_leave = None, p_leaveFrom = None, p_leaveTo = None \<rparr>"

definition hidden_unmounted :: "label list" where
  "hidden_unmounted = [Create unmount_props None, Init 0]"



text \<open>
  A top-level transition (\<open>Runes\<close>) that is shown and, while its \<^verbatim>\<open>enter\<close> is in flight,
  updated twice; the \<^verbatim>\<open>enter\<close> then runs to its end, and the two callbacks registered on
  its promise run one after the other.
\<close>

definition entered :: "label list" where
  "entered =
     [Create root_props None, Init 0, Update 0 (Some True), Then 0 0,
      Update 0 (Some False), Update 0 (Some True),
      Resume 0 0, AnimationFrame, AnimationFrame, Resume 0 0, NativeTransitionEnd [0],
      Resume 0 0, Resume 0 0]"

definition twice_updated :: "label list" where
  "twice_updated = entered @ [Then 0 0, Then 0 0]"





text \<open>
  A list of statements that suspends, if it calls \<^verbatim>\<open>parent.completed()\<close> at all, at an
  \<^verbatim>\<open>await\<close> before that call.
\<close>

fun own_segment :: "instr list \<Rightarrow> bool" where
  "own_segment [] = True"
| "own_segment (i # is) =
     (i = AwaitMounted \<or> i = AwaitNextFrame \<or> (i \<noteq> AwaitParentCompleted \<and> own_segment is))"

text \<open>The class lists that a statement passes to \<^verbatim>\<open>classList.add\<close> or \<^verbatim>\<open>classList.remove\<close>.\<close>

definition class_args :: "instr \<Rightarrow> string list" where
  "class_args i = (case i of AddClasses cs \<Rightarrow> cs | RemoveClasses cs \<Rightarrow> cs | _ \<Rightarrow> [])"

section \<open>Reading and writing the state\<close>

lemmas eval_defs = step_def init_def execute_def update_def destroy_def deliver_def resume_def
  then_callback_def animation_frame_def frame_act_def settled_def finished_def ready_def
  start_def continue_def prog_def new_act_def exec_def bind_el_def ensureMountedElement_def
  transitionEnd_def completed_def childrenCompleted_def store_set_def add_tokens_def
  remove_tokens_def enter_prog_def leave_prog_def apply_prog_def slot_rendered_def new_node_def
  upd_act_def upd_ctx_def upd_node_def the_act_def the_node_def truthy_def empty_state_def
  sent_def
  enterClasses_def enterFromClasses_def enterToClasses_def leaveClasses_def leaveFromClasses_def
  leaveToClasses_def leave_string_def leaveFrom_string_def leaveTo_string_def classes_def
  the_state_def ok_def root_props_def child_props_def Let_def token_error_def whitespace_def
  first_run_def started_def shown_def before_def appear_root_props_def shown_root_props_def

lemma queue_simps [simp]:
  "the_node (s\<lparr>queue := q\<rparr>) n = the_node s n"
  "the_act (s\<lparr>queue := q\<rparr>) n a = the_act s n a"
  "queue (upd_node n f s) = queue s"
  "queue (upd_ctx n g s) = queue s"
  "queue (upd_act n a h s) = queue s"
  "upd_node n f (s\<lparr>queue := q\<rparr>) = (upd_node n f s)\<lparr>queue := q\<rparr>"
  by (simp_all add: the_node_def the_act_def upd_node_def upd_ctx_def upd_act_def)

lemma length_nodes_upd_node [simp]: "length (nodes (upd_node n f s)) = length (nodes s)"
  by (simp add: upd_node_def)

lemma the_node_upd_node:
  "the_node (upd_node n f s) m =
     (if m = n \<and> n < length (nodes s) then f (the_node s n) else the_node s m)"
  by (cases "n < length (nodes s)")
    (auto simp: upd_node_def the_node_def nth_list_update list_update_beyond)

lemma length_nodes_upd_ctx [simp]: "length (nodes (upd_ctx n f s)) = length (nodes s)"
  by (simp add: upd_ctx_def)

lemma length_nodes_upd_act [simp]: "length (nodes (upd_act n a f s)) = length (nodes s)"
  by (simp add: upd_act_def)

lemma the_node_upd_ctx:
  "the_node (upd_ctx n f s) m =
     (if m = n \<and> n < length (nodes s)
      then (the_node s n)\<lparr>n_context := f (n_context (the_node s n))\<rparr> else the_node s m)"
  by (simp add: upd_ctx_def the_node_upd_node)

lemma the_node_upd_act:
  "the_node (upd_act n a f s) m =
     (if m = n \<and> n < length (nodes s)
      then (the_node s n)\<lparr>n_acts := (n_acts (the_node s n))[a := f (the_act s n a)]\<rparr>
      else the_node s m)"
  by (simp add: upd_act_def the_node_upd_node the_act_def)

lemma the_act_upd_act:
  "the_act (upd_act n a f s) m b =
     (if m = n \<and> b = a \<and> n < length (nodes s) \<and> a < length (n_acts (the_node s n))
      then f (the_act s n a) else the_act s m b)"
  by (cases "a < length (n_acts (the_node s n))")
    (auto simp: the_act_def the_node_upd_act nth_list_update list_update_beyond)

lemma the_act_upd_ctx [simp]: "the_act (upd_ctx n f s) m b = the_act s m b"
  by (simp add: the_act_def the_node_upd_ctx)

lemma length_acts_upd_act [simp]:
  "length (n_acts (the_node (upd_act n a f s) m)) = length (n_acts (the_node s m))"
  by (simp add: the_node_upd_act)

lemma length_acts_upd_ctx [simp]:
  "length (n_acts (the_node (upd_ctx n f s) m)) = length (n_acts (the_node s m))"
  by (simp add: the_node_upd_ctx)

lemma n_context_upd_act [simp]:
  "n_context (the_node (upd_act n a f s) m) = n_context (the_node s m)"
  by (simp add: the_node_upd_act)

lemma fold_inbox:
  "\<exists>l. the_node (fold (\<lambda>m. upd_node m (\<lambda>nd. nd\<lparr>n_inbox := n_inbox nd @ [e]\<rparr>)) ms s) k
         = (the_node s k)\<lparr>n_inbox := n_inbox (the_node s k) @ l\<rparr> \<and> set l \<subseteq> {e}"
proof (induction ms arbitrary: s)
  case Nil
  show ?case by (intro exI [of _ "[]"]) simp
next
  case (Cons m ms)
  let ?s = "upd_node m (\<lambda>nd. nd\<lparr>n_inbox := n_inbox nd @ [e]\<rparr>) s"
  obtain l where l: "the_node (fold (\<lambda>m. upd_node m (\<lambda>nd. nd\<lparr>n_inbox := n_inbox nd @ [e]\<rparr>)) ms ?s) k
         = (the_node ?s k)\<lparr>n_inbox := n_inbox (the_node ?s k) @ l\<rparr>" "set l \<subseteq> {e}"
    using Cons.IH [of ?s] by blast
  show ?case
  proof (cases "k = m \<and> m < length (nodes s)")
    case True
    then show ?thesis
      using l by (intro exI [of _ "e # l"]) (simp add: the_node_upd_node)
  next
    case False
    then show ?thesis
      using l by (intro exI [of _ l]) (auto simp: the_node_upd_node)
  qed
qed

lemma length_nodes_fold_inbox [simp]:
  "length (nodes (fold (\<lambda>m. upd_node m (f m)) ms s)) = length (nodes s)"
  by (induction ms arbitrary: s) simp_all

lemma length_nodes_store_set [simp]: "length (nodes (store_set n shw s)) = length (nodes s)"
  by (simp add: store_set_def Let_def)

lemma store_set_node:
  "\<exists>l. the_node (store_set n shw s) k
       = (the_node s k)\<lparr> n_inbox := n_inbox (the_node s k) @ l,
           n_context := (if k = n \<and> n < length (nodes s)
                         then (n_context (the_node s n))\<lparr>c_show := shw\<rparr>
                         else n_context (the_node s k)) \<rparr>
     \<and> set l \<subseteq> {(shw, c_installs (n_context (the_node s n)))}"
proof (cases "c_show (n_context (the_node s n)) = shw")
  case True
  then show ?thesis
    by (intro exI [of _ "[]"]) (auto simp: store_set_def)
next
  case False
  let ?s = "upd_ctx n (\<lambda>c. c\<lparr>c_show := shw\<rparr>) s"
  obtain l where "the_node (fold (\<lambda>m. upd_node m (\<lambda>nd. nd\<lparr>n_inbox := n_inbox nd @ [(shw, c_installs (n_context (the_node s n)))]\<rparr>)) (c_subs (n_context (the_node s n))) ?s) k
         = (the_node ?s k)\<lparr>n_inbox := n_inbox (the_node ?s k) @ l\<rparr>"
    "set l \<subseteq> {(shw, c_installs (n_context (the_node s n)))}"
    using fold_inbox by blast
  then show ?thesis
    using False by (intro exI [of _ l]) (auto simp: store_set_def Let_def the_node_upd_ctx)
qed

lemma store_set_fields [simp]:
  "n_acts (the_node (store_set n shw s) k) = n_acts (the_node s k)"
  "n_classLog (the_node (store_set n shw s) k) = n_classLog (the_node s k)"
  "static (the_node (store_set n shw s) k) = static (the_node s k)"
  "n_parent (the_node (store_set n shw s) k) = n_parent (the_node s k)"
  "n_props (the_node (store_set n shw s) k) = n_props (the_node s k)"
  "n_run (the_node (store_set n shw s) k) = n_run (the_node s k)"
  "n_life (the_node (store_set n shw s) k) = n_life (the_node s k)"
  "n_el (the_node (store_set n shw s) k) = n_el (the_node s k)"
  "n_events (the_node (store_set n shw s) k) = n_events (the_node s k)"
  "n_mounted (the_node (store_set n shw s) k) = n_mounted (the_node s k)"
  "n_wrapper (the_node (store_set n shw s) k) = n_wrapper (the_node s k)"
  "n_listeners (the_node (store_set n shw s) k) = n_listeners (the_node s k)"
  "the_act (store_set n shw s) k b = the_act s k b"
  using store_set_node [of n shw s k] by (auto simp: static_def the_act_def)

lemma store_set_ctx:
  "c_count (n_context (the_node (store_set n shw s) k)) = c_count (n_context (the_node s k))"
  "c_completed (n_context (the_node (store_set n shw s) k)) = c_completed (n_context (the_node s k))"
  "c_installs (n_context (the_node (store_set n shw s) k)) = c_installs (n_context (the_node s k))"
  "c_subs (n_context (the_node (store_set n shw s) k)) = c_subs (n_context (the_node s k))"
  "c_appear (n_context (the_node (store_set n shw s) k)) = c_appear (n_context (the_node s k))"
  using store_set_node [of n shw s k] by (auto split: if_splits)


lemma bind_Inr_iff: "bind m f = Inr y \<longleftrightarrow> (\<exists>x. m = Inr x \<and> f x = Inr y)"
  by (cases m) simp_all

lemma the_act_upd_node:
  "the_act (upd_node n f s) m b =
     n_acts (if m = n \<and> n < length (nodes s) then f (the_node s n) else the_node s m) ! b"
  by (simp add: the_act_def the_node_upd_node)

lemma static_simps [simp]:
  "static (nd\<lparr>n_context := c\<rparr>) = static nd"
  "static (nd\<lparr>n_acts := xs\<rparr>) = static nd"
  "static (nd\<lparr>n_events := ev\<rparr>) = static nd"
  "static (nd\<lparr>n_elDisplay := d\<rparr>) = static nd"
  "static (nd\<lparr>n_elVisibility := d\<rparr>) = static nd"
  "static (nd\<lparr>n_wrapper := w\<rparr>) = static nd"
  "static (nd\<lparr>n_mounted := mo\<rparr>) = static nd"
  "static (nd\<lparr>n_fresh := fr\<rparr>) = static nd"
  "static (nd\<lparr>n_el := el\<rparr>) = static nd"
  "static (nd\<lparr>n_classList := cl\<rparr>) = static nd"
  "static (nd\<lparr>n_classLog := lg\<rparr>) = static nd"
  "static (nd\<lparr>n_listeners := ls\<rparr>) = static nd"
  "static (nd\<lparr>n_inbox := ib\<rparr>) = static nd"
  "static (nd\<lparr>n_run := r\<rparr>) = static nd"
  "static (nd\<lparr>n_life := lf\<rparr>) = static nd"
  "static (nd\<lparr>n_executing := ex\<rparr>) = static nd"
  "static (nd\<lparr>n_thens := th\<rparr>) = static nd"
  "static (nd\<lparr>n_props := (n_props nd)\<lparr>p_show := sh\<rparr>\<rparr>) = static nd"
  by (simp_all add: static_def)

lemmas node_simps = the_node_upd_node the_node_upd_act the_node_upd_ctx the_act_upd_act
  the_act_upd_node


lemma upd_node_keeps [simp]:
  "(\<And>nd. n_props (f nd) = n_props nd) \<Longrightarrow> n_props (the_node (upd_node n f s) m) = n_props (the_node s m)"
  "(\<And>nd. n_anc (f nd) = n_anc nd) \<Longrightarrow> n_anc (the_node (upd_node n f s) m) = n_anc (the_node s m)"
  "(\<And>nd. n_parent (f nd) = n_parent nd) \<Longrightarrow> n_parent (the_node (upd_node n f s) m) = n_parent (the_node s m)"
  "(\<And>nd. n_context (f nd) = n_context nd) \<Longrightarrow> n_context (the_node (upd_node n f s) m) = n_context (the_node s m)"
  "(\<And>nd. n_life (f nd) = n_life nd) \<Longrightarrow> n_life (the_node (upd_node n f s) m) = n_life (the_node s m)"
  "(\<And>nd. n_run (f nd) = n_run nd) \<Longrightarrow> n_run (the_node (upd_node n f s) m) = n_run (the_node s m)"
  "(\<And>nd. n_mounted (f nd) = n_mounted nd) \<Longrightarrow> n_mounted (the_node (upd_node n f s) m) = n_mounted (the_node s m)"
  "(\<And>nd. n_wrapper (f nd) = n_wrapper nd) \<Longrightarrow> n_wrapper (the_node (upd_node n f s) m) = n_wrapper (the_node s m)"
  "(\<And>nd. n_el (f nd) = n_el nd) \<Longrightarrow> n_el (the_node (upd_node n f s) m) = n_el (the_node s m)"
  "(\<And>nd. n_fresh (f nd) = n_fresh nd) \<Longrightarrow> n_fresh (the_node (upd_node n f s) m) = n_fresh (the_node s m)"
  "(\<And>nd. n_classList (f nd) = n_classList nd) \<Longrightarrow> n_classList (the_node (upd_node n f s) m) = n_classList (the_node s m)"
  "(\<And>nd. n_classLog (f nd) = n_classLog nd) \<Longrightarrow> n_classLog (the_node (upd_node n f s) m) = n_classLog (the_node s m)"
  "(\<And>nd. n_elDisplay (f nd) = n_elDisplay nd) \<Longrightarrow> n_elDisplay (the_node (upd_node n f s) m) = n_elDisplay (the_node s m)"
  "(\<And>nd. n_elVisibility (f nd) = n_elVisibility nd) \<Longrightarrow> n_elVisibility (the_node (upd_node n f s) m) = n_elVisibility (the_node s m)"
  "(\<And>nd. n_listeners (f nd) = n_listeners nd) \<Longrightarrow> n_listeners (the_node (upd_node n f s) m) = n_listeners (the_node s m)"
  "(\<And>nd. n_executing (f nd) = n_executing nd) \<Longrightarrow> n_executing (the_node (upd_node n f s) m) = n_executing (the_node s m)"
  "(\<And>nd. n_thens (f nd) = n_thens nd) \<Longrightarrow> n_thens (the_node (upd_node n f s) m) = n_thens (the_node s m)"
  "(\<And>nd. n_inbox (f nd) = n_inbox nd) \<Longrightarrow> n_inbox (the_node (upd_node n f s) m) = n_inbox (the_node s m)"
  "(\<And>nd. n_acts (f nd) = n_acts nd) \<Longrightarrow> n_acts (the_node (upd_node n f s) m) = n_acts (the_node s m)"
  "(\<And>nd. n_events (f nd) = n_events nd) \<Longrightarrow> n_events (the_node (upd_node n f s) m) = n_events (the_node s m)"
  "(\<And>nd. static (f nd) = static nd) \<Longrightarrow> static (the_node (upd_node n f s) m) = static (the_node s m)"
  by (simp_all add: the_node_upd_node)

lemma upd_act_keeps [simp]:
  "n_props (the_node (upd_act n a g s) m) = n_props (the_node s m)"
  "n_anc (the_node (upd_act n a g s) m) = n_anc (the_node s m)"
  "n_parent (the_node (upd_act n a g s) m) = n_parent (the_node s m)"
  "n_context (the_node (upd_act n a g s) m) = n_context (the_node s m)"
  "n_life (the_node (upd_act n a g s) m) = n_life (the_node s m)"
  "n_run (the_node (upd_act n a g s) m) = n_run (the_node s m)"
  "n_mounted (the_node (upd_act n a g s) m) = n_mounted (the_node s m)"
  "n_wrapper (the_node (upd_act n a g s) m) = n_wrapper (the_node s m)"
  "n_el (the_node (upd_act n a g s) m) = n_el (the_node s m)"
  "n_fresh (the_node (upd_act n a g s) m) = n_fresh (the_node s m)"
  "n_classList (the_node (upd_act n a g s) m) = n_classList (the_node s m)"
  "n_classLog (the_node (upd_act n a g s) m) = n_classLog (the_node s m)"
  "n_elDisplay (the_node (upd_act n a g s) m) = n_elDisplay (the_node s m)"
  "n_elVisibility (the_node (upd_act n a g s) m) = n_elVisibility (the_node s m)"
  "n_listeners (the_node (upd_act n a g s) m) = n_listeners (the_node s m)"
  "n_executing (the_node (upd_act n a g s) m) = n_executing (the_node s m)"
  "n_thens (the_node (upd_act n a g s) m) = n_thens (the_node s m)"
  "n_inbox (the_node (upd_act n a g s) m) = n_inbox (the_node s m)"
  "n_events (the_node (upd_act n a g s) m) = n_events (the_node s m)"
  "static (the_node (upd_act n a g s) m) = static (the_node s m)"
  by (simp_all add: the_node_upd_act static_def)

lemma upd_ctx_keeps [simp]:
  "n_props (the_node (upd_ctx n g s) m) = n_props (the_node s m)"
  "n_anc (the_node (upd_ctx n g s) m) = n_anc (the_node s m)"
  "n_parent (the_node (upd_ctx n g s) m) = n_parent (the_node s m)"
  "n_life (the_node (upd_ctx n g s) m) = n_life (the_node s m)"
  "n_run (the_node (upd_ctx n g s) m) = n_run (the_node s m)"
  "n_mounted (the_node (upd_ctx n g s) m) = n_mounted (the_node s m)"
  "n_wrapper (the_node (upd_ctx n g s) m) = n_wrapper (the_node s m)"
  "n_el (the_node (upd_ctx n g s) m) = n_el (the_node s m)"
  "n_fresh (the_node (upd_ctx n g s) m) = n_fresh (the_node s m)"
  "n_classList (the_node (upd_ctx n g s) m) = n_classList (the_node s m)"
  "n_classLog (the_node (upd_ctx n g s) m) = n_classLog (the_node s m)"
  "n_elDisplay (the_node (upd_ctx n g s) m) = n_elDisplay (the_node s m)"
  "n_elVisibility (the_node (upd_ctx n g s) m) = n_elVisibility (the_node s m)"
  "n_listeners (the_node (upd_ctx n g s) m) = n_listeners (the_node s m)"
  "n_executing (the_node (upd_ctx n g s) m) = n_executing (the_node s m)"
  "n_thens (the_node (upd_ctx n g s) m) = n_thens (the_node s m)"
  "n_inbox (the_node (upd_ctx n g s) m) = n_inbox (the_node s m)"
  "n_acts (the_node (upd_ctx n g s) m) = n_acts (the_node s m)"
  "n_events (the_node (upd_ctx n g s) m) = n_events (the_node s m)"
  "static (the_node (upd_ctx n g s) m) = static (the_node s m)"
  by (simp_all add: the_node_upd_ctx static_def)

lemma upd_ctx_field_keeps [simp]:
  "(\<And>c. c_appear (g c) = c_appear c) \<Longrightarrow> c_appear (n_context (the_node (upd_ctx n g s) m)) = c_appear (n_context (the_node s m))"
  "(\<And>c. c_show (g c) = c_show c) \<Longrightarrow> c_show (n_context (the_node (upd_ctx n g s) m)) = c_show (n_context (the_node s m))"
  "(\<And>c. c_subs (g c) = c_subs c) \<Longrightarrow> c_subs (n_context (the_node (upd_ctx n g s) m)) = c_subs (n_context (the_node s m))"
  "(\<And>c. c_count (g c) = c_count c) \<Longrightarrow> c_count (n_context (the_node (upd_ctx n g s) m)) = c_count (n_context (the_node s m))"
  "(\<And>c. c_completed (g c) = c_completed c) \<Longrightarrow> c_completed (n_context (the_node (upd_ctx n g s) m)) = c_completed (n_context (the_node s m))"
  "(\<And>c. c_installs (g c) = c_installs c) \<Longrightarrow> c_installs (n_context (the_node (upd_ctx n g s) m)) = c_installs (n_context (the_node s m))"
  by (simp_all add: the_node_upd_ctx)

lemma the_act_upd_node_keeps [simp]:
  "(\<And>nd. n_acts (f nd) = n_acts nd) \<Longrightarrow> the_act (upd_node n f s) m b = the_act s m b"
  by (simp add: the_act_def)

lemma upd_act_field_keeps [simp]:
  "(\<And>x. a_enter (g x) = a_enter x) \<Longrightarrow> a_enter (the_act (upd_act n a g s) m b) = a_enter (the_act s m b)"
  "(\<And>x. a_pc (g x) = a_pc x) \<Longrightarrow> a_pc (the_act (upd_act n a g s) m b) = a_pc (the_act s m b)"
  "(\<And>x. a_wait (g x) = a_wait x) \<Longrightarrow> a_wait (the_act (upd_act n a g s) m b) = a_wait (the_act s m b)"
  "(\<And>x. a_raf (g x) = a_raf x) \<Longrightarrow> a_raf (the_act (upd_act n a g s) m b) = a_raf (the_act s m b)"
  "(\<And>x. a_transitioned (g x) = a_transitioned x) \<Longrightarrow> a_transitioned (the_act (upd_act n a g s) m b) = a_transitioned (the_act s m b)"
  "(\<And>x. a_children (g x) = a_children x) \<Longrightarrow> a_children (the_act (upd_act n a g s) m b) = a_children (the_act s m b)"
  "(\<And>x. a_count (g x) = a_count x) \<Longrightarrow> a_count (the_act (upd_act n a g s) m b) = a_count (the_act s m b)"
  "(\<And>x. a_completed (g x) = a_completed x) \<Longrightarrow> a_completed (the_act (upd_act n a g s) m b) = a_completed (the_act s m b)"
  "(\<And>x. a_resolves (g x) = a_resolves x) \<Longrightarrow> a_resolves (the_act (upd_act n a g s) m b) = a_resolves (the_act s m b)"
  "(\<And>x. a_reports (g x) = a_reports x) \<Longrightarrow> a_reports (the_act (upd_act n a g s) m b) = a_reports (the_act s m b)"
  "(\<And>x. a_seq (g x) = a_seq x) \<Longrightarrow> a_seq (the_act (upd_act n a g s) m b) = a_seq (the_act s m b)"
  "(\<And>x. a_tag (g x) = a_tag x) \<Longrightarrow> a_tag (the_act (upd_act n a g s) m b) = a_tag (the_act s m b)"
  "(\<And>x. a_sent (g x) = a_sent x) \<Longrightarrow> a_sent (the_act (upd_act n a g s) m b) = a_sent (the_act s m b)"
  by (simp_all add: the_act_upd_act)

lemma upd_node_id: "upd_node n (\<lambda>nd. nd) s = s"
  by (simp add: upd_node_def)

lemma exec_frame:
  assumes "exec v n a i s = Inr (w, s1)"
  shows "length (nodes s1) = length (nodes s)
    \<and> length (n_acts (the_node s1 m)) = length (n_acts (the_node s m))
    \<and> static (the_node s1 m) = static (the_node s m)
    \<and> n_run (the_node s1 m) = n_run (the_node s m)
    \<and> n_life (the_node s1 m) = n_life (the_node s m)
    \<and> a_pc (the_act s1 m b) = a_pc (the_act s m b)
    \<and> a_wait (the_act s1 m b) = a_wait (the_act s m b)
    \<and> a_enter (the_act s1 m b) = a_enter (the_act s m b)
    \<and> a_tag (the_act s1 m b) = a_tag (the_act s m b)"
  using assms
  by (cases i)
    (auto simp: exec_def bind_Inr_iff transitionEnd_def completed_def
      childrenCompleted_def ensureMountedElement_def bind_el_def Let_def
      split: if_splits option.splits)


lemma static_fields:
  assumes "static nd' = static nd"
  shows "n_parent nd' = n_parent nd" "n_anc nd' = n_anc nd"
    "p_unmount (n_props nd') = p_unmount (n_props nd)"
    "p_appear (n_props nd') = p_appear (n_props nd)"
    "p_enter (n_props nd') = p_enter (n_props nd)"
    "p_enterFrom (n_props nd') = p_enterFrom (n_props nd)"
    "p_enterTo (n_props nd') = p_enterTo (n_props nd)"
    "p_leave (n_props nd') = p_leave (n_props nd)"
    "p_leaveFrom (n_props nd') = p_leaveFrom (n_props nd)"
    "p_leaveTo (n_props nd') = p_leaveTo (n_props nd)"
proof -
  have e: "(n_props nd')\<lparr>p_show := None\<rparr> = (n_props nd)\<lparr>p_show := None\<rparr>"
    using assms by (simp add: static_def)
  show "n_parent nd' = n_parent nd" "n_anc nd' = n_anc nd"
    using assms by (simp_all add: static_def)
  show "p_unmount (n_props nd') = p_unmount (n_props nd)"
    using arg_cong [OF e, of p_unmount] by simp
  show "p_appear (n_props nd') = p_appear (n_props nd)"
    using arg_cong [OF e, of p_appear] by simp
  show "p_enter (n_props nd') = p_enter (n_props nd)"
    using arg_cong [OF e, of p_enter] by simp
  show "p_enterFrom (n_props nd') = p_enterFrom (n_props nd)"
    using arg_cong [OF e, of p_enterFrom] by simp
  show "p_enterTo (n_props nd') = p_enterTo (n_props nd)"
    using arg_cong [OF e, of p_enterTo] by simp
  show "p_leave (n_props nd') = p_leave (n_props nd)"
    using arg_cong [OF e, of p_leave] by simp
  show "p_leaveFrom (n_props nd') = p_leaveFrom (n_props nd)"
    using arg_cong [OF e, of p_leaveFrom] by simp
  show "p_leaveTo (n_props nd') = p_leaveTo (n_props nd)"
    using arg_cong [OF e, of p_leaveTo] by simp
qed

lemma prog_static:
  assumes "static nd' = static nd" "a_enter x' = a_enter x"
  shows "prog v nd' x' = prog v nd x"
  using static_fields [OF assms(1)] assms(2)
  by (cases v) (simp_all add: prog_def enter_prog_def leave_prog_def enterClasses_def enterFromClasses_def
      enterToClasses_def leaveClasses_def leaveFromClasses_def leaveToClasses_def
      leave_string_def leaveFrom_string_def leaveTo_string_def Let_def
      cong: option.case_cong)

lemma run_from_micro:
  assumes "n < length (nodes s)" "a < length (n_acts (the_node s n))"
    "a_wait (the_act s n a) = None"
    "is = drop (a_pc (the_act s n a)) (prog v (the_node s n) (the_act s n a))"
    "run_from v n a is s = Inr s'"
  shows "(micro v)\<^sup>*\<^sup>* s s'"
  using assms
proof (induction "is" arbitrary: s)
  case Nil
  then show ?case by simp
next
  case (Cons i "is")
  let ?x = "the_act s n a"
  let ?p = "prog v (the_node s n) ?x"
  have pc: "a_pc ?x < length ?p"
    using Cons.prems(4) by (metis drop_all list.distinct(1) not_le)
  have i: "?p ! a_pc ?x = i" and "is": "is = drop (Suc (a_pc ?x)) ?p"
    using Cons.prems(4) pc by (metis Cons_nth_drop_Suc list.inject)+
  obtain w s1 where e: "exec v n a i s = Inr (w, s1)"
    using Cons.prems(5) by (cases "exec v n a i s") auto
  note fr = exec_frame [OF e]
  show ?case
  proof (cases w)
    case None
    let ?s2 = "upd_act n a (\<lambda>x. x\<lparr>a_pc := a_pc x + 1\<rparr>) s1"
    have m: "micro v s ?s2"
      using mi_exec [OF Cons.prems(1-3) pc] e i None by simp
    have r: "run_from v n a is ?s2 = Inr s'"
      using Cons.prems(5) e None by simp
    have v1: "n < length (nodes ?s2)" "a < length (n_acts (the_node ?s2 n))"
      using Cons.prems(1,2) fr [of n a] by simp_all
    have x2: "the_act ?s2 n a = (the_act s1 n a)\<lparr>a_pc := a_pc (the_act s1 n a) + 1\<rparr>"
      using Cons.prems(1,2) fr [of n a] by (simp add: the_act_upd_act)
    have w2: "a_wait (the_act ?s2 n a) = None"
      using x2 fr [of n a] Cons.prems(3) by simp
    have p2: "prog v (the_node ?s2 n) (the_act ?s2 n a) = ?p"
      using x2 fr [of n a] by (intro prog_static) simp_all
    have d2: "is = drop (a_pc (the_act ?s2 n a)) (prog v (the_node ?s2 n) (the_act ?s2 n a))"
      using "is" x2 fr [of n a] p2 by simp
    have "(micro v)\<^sup>*\<^sup>* ?s2 s'"
      using Cons.IH [OF v1 w2 d2 r] .
    then show ?thesis
      using m by simp
  next
    case (Some w')
    have "s' = upd_act n a (\<lambda>x. x\<lparr>a_wait := Some w'\<rparr>) s1"
      using Cons.prems(5) e Some by simp
    then have "micro v s s'"
      using mi_await [OF Cons.prems(1-3) pc] e i Some by simp
    then show ?thesis by simp
  qed
qed


lemma tag_ok_queue [simp]: "tag_ok (s\<lparr>queue := q\<rparr>) n t = tag_ok s n t"
  by (simp add: tag_ok_def cong: option.case_cong)

lemma tag_ok_0 [simp]: "tag_ok s n 0"
  by (simp add: tag_ok_def split: option.splits)

lemma tag_ok_local [simp]:
  "harmless f \<Longrightarrow> tag_ok (upd_node m f s) n t = tag_ok s n t"
  by (simp add: tag_ok_def harmless_def the_node_upd_node static_def split: option.splits)

lemma start_micro:
  assumes "n < length (nodes s)" "tag_ok s n t" "start v n e t s = Inr s'"
  shows "(micro v)\<^sup>*\<^sup>* s s'"
proof -
  let ?a = "length (n_acts (the_node s n))"
  let ?s = "upd_node n (\<lambda>nd. nd\<lparr>n_acts := n_acts nd @ [new_act e t]\<rparr>) s"
  have m: "micro v s ?s"
    using assms(1,2) by (intro mi_spawn) (simp_all add: tag_ok_def)
  have x: "the_act ?s n ?a = new_act e t"
    using assms(1) by (simp add: the_act_def the_node_upd_node)
  have r: "run_from v n ?a (drop (a_pc (the_act ?s n ?a))
             (prog v (the_node ?s n) (the_act ?s n ?a))) ?s = Inr s'"
    using assms(3) by (simp add: start_def continue_def Let_def)
  have "(micro v)\<^sup>*\<^sup>* ?s s'"
    using assms(1) x
    by (intro run_from_micro [OF _ _ _ refl r]) (simp_all add: the_node_upd_node new_act_def)
  then show ?thesis
    using m by simp
qed

lemma harmless_simps [simp]:
  "harmless (\<lambda>nd. nd)"
  "harmless (\<lambda>nd. nd\<lparr>n_run := r\<rparr>)"
  "harmless (\<lambda>nd. nd\<lparr>n_wrapper := w, n_elDisplay := d\<rparr>)"
  "harmless (\<lambda>nd. nd\<lparr>n_executing := ex, n_run := r\<rparr>)"
  "harmless (\<lambda>nd. nd\<lparr>n_life := lf, n_run := r, n_el := el\<rparr>)"
  "harmless (\<lambda>nd. nd\<lparr>n_life := lf\<rparr>)"
  "harmless (\<lambda>nd. nd\<lparr>n_inbox := []\<rparr>)"
  "harmless (\<lambda>nd. nd\<lparr>n_props := (n_props nd)\<lparr>p_show := sh\<rparr>\<rparr>)"
  "harmless (\<lambda>nd. nd\<lparr>n_thens := g (n_thens nd)\<rparr>)"
  "harmless (\<lambda>nd. nd\<lparr>n_thens := n_thens nd @ [(n_executing nd, sh)]\<rparr>)"
  by (simp_all add: harmless_def static_def)



lemma execute_Legacy:
  "execute Legacy n shw t s =
     (if \<not> n_run (the_node s n) \<and> \<not> n_el (the_node s n) then Inl TypeError
      else bind (if n_run (the_node s n) \<or> p_appear (n_props (the_node s n))
                 then start Legacy n (truthy shw) t
                        (if \<not> n_run (the_node s n)
                         then upd_node n (\<lambda>nd. nd\<lparr> n_wrapper := True,
                                n_elDisplay :=
                                  (if truthy shw
                                   then (if p_appear (n_props (the_node s n)) then ''none'' else [])
                                   else (if p_appear (n_props (the_node s n)) then [] else ''none'')) \<rparr>) s
                         else s)
                 else Inr (if \<not> n_run (the_node s n)
                         then upd_node n (\<lambda>nd. nd\<lparr> n_wrapper := True,
                                n_elDisplay :=
                                  (if truthy shw
                                   then (if p_appear (n_props (the_node s n)) then ''none'' else [])
                                   else (if p_appear (n_props (the_node s n)) then [] else ''none'')) \<rparr>) s
                         else s))
             (\<lambda>s2. Inr (upd_node n (\<lambda>nd. nd\<lparr>n_run := True\<rparr>)
                          (sent n (length (n_acts (the_node s n))) (store_set n shw s2)))))"
  by (simp add: execute_def Let_def)

lemma execute_Slots:
  "execute Slots n shw t s =
     bind (if n_run (the_node s n) then start Slots n (truthy shw) t s else Inr s)
       (\<lambda>s1. Inr (upd_node n (\<lambda>nd. nd\<lparr>n_run := True\<rparr>) s1))"
  by (simp add: execute_def Let_def)

lemma execute_Runes:
  "execute Runes n shw t s =
     (if n_run (the_node s n)
      then bind (start Runes n (truthy shw) t s)
             (\<lambda>s1. Inr (upd_node n
                     (\<lambda>x. x\<lparr> n_executing := OfAct (length (n_acts (the_node s n))),
                              n_run := True \<rparr>) s1))
      else Inr (upd_node n (\<lambda>x. x\<lparr>n_executing := Resolved, n_run := True\<rparr>) s))"
  by (simp add: execute_def Let_def)


lemma if_Inl_Inr: "(if c then Inl e else b) = Inr y \<Longrightarrow> b = Inr y"
  by (simp split: if_splits)

lemma micro_local_star:
  "harmless f \<Longrightarrow> (micro v)\<^sup>*\<^sup>* s (upd_node n f s)"
  by (simp add: mi_local r_into_rtranclp)

section \<open>Every step is made of small steps\<close>

lemma exec_Some_can_await:
  "exec v n a i s = Inr (Some w, s1) \<Longrightarrow> can_await i"
  by (cases i) (auto simp: exec_def can_await_def bind_Inr_iff split: if_splits option.splits)

lemma run_from_stops:
  assumes "n < length (nodes s)" "a < length (n_acts (the_node s n))"
    "a_wait (the_act s n a) = None"
    "is = drop (a_pc (the_act s n a)) (prog v (the_node s n) (the_act s n a))"
    "run_from v n a is s = Inr s'"
  shows "prog v (the_node s' n) (the_act s' n a) = prog v (the_node s n) (the_act s n a)
     \<and> (length (prog v (the_node s n) (the_act s n a)) \<le> a_pc (the_act s' n a)
        \<or> (a_pc (the_act s' n a) < length (prog v (the_node s n) (the_act s n a))
           \<and> can_await (prog v (the_node s n) (the_act s n a) ! a_pc (the_act s' n a))))"
  using assms
proof (induction "is" arbitrary: s)
  case Nil
  then show ?case by simp
next
  case (Cons i "is")
  let ?x = "the_act s n a"
  let ?p = "prog v (the_node s n) ?x"
  have pc: "a_pc ?x < length ?p"
    using Cons.prems(4) by (metis drop_all list.distinct(1) not_le)
  have i: "?p ! a_pc ?x = i" and "is": "is = drop (Suc (a_pc ?x)) ?p"
    using Cons.prems(4) pc by (metis Cons_nth_drop_Suc list.inject)+
  obtain w s1 where e: "exec v n a i s = Inr (w, s1)"
    using Cons.prems(5) by (cases "exec v n a i s") auto
  note fr = exec_frame [OF e]
  show ?case
  proof (cases w)
    case None
    let ?s2 = "upd_act n a (\<lambda>x. x\<lparr>a_pc := a_pc x + 1\<rparr>) s1"
    have r: "run_from v n a is ?s2 = Inr s'"
      using Cons.prems(5) e None by simp
    have v1: "n < length (nodes ?s2)" "a < length (n_acts (the_node ?s2 n))"
      using Cons.prems(1,2) fr [of n a] by simp_all
    have x2: "the_act ?s2 n a = (the_act s1 n a)\<lparr>a_pc := a_pc (the_act s1 n a) + 1\<rparr>"
      using Cons.prems(1,2) fr [of n a] by (simp add: the_act_upd_act)
    have w2: "a_wait (the_act ?s2 n a) = None"
      using x2 fr [of n a] Cons.prems(3) by simp
    have p2: "prog v (the_node ?s2 n) (the_act ?s2 n a) = ?p"
      using x2 fr [of n a] by (intro prog_static) simp_all
    have d2: "is = drop (a_pc (the_act ?s2 n a)) (prog v (the_node ?s2 n) (the_act ?s2 n a))"
      using "is" x2 fr [of n a] p2 by simp
    show ?thesis
      using Cons.IH [OF v1 w2 d2 r] by (simp only: p2)
  next
    case (Some w')
    have s': "s' = upd_act n a (\<lambda>x. x\<lparr>a_wait := Some w'\<rparr>) s1"
      using Cons.prems(5) e Some by simp
    have x2: "the_act s' n a = (the_act s1 n a)\<lparr>a_wait := Some w'\<rparr>"
      unfolding s' using Cons.prems(1,2) fr [of n a] by (simp add: the_act_upd_act)
    have p2: "prog v (the_node s' n) (the_act s' n a) = ?p"
      unfolding s' using x2 [unfolded s'] fr [of n a] by (intro prog_static) simp_all
    have "can_await i"
      using exec_Some_can_await e Some by blast
    moreover have "a_pc (the_act s' n a) = a_pc ?x"
      using x2 fr [of n a] by simp
    ultimately show ?thesis
      using p2 pc i by simp
  qed
qed

lemma Legacy_await_after_gate:
  assumes "prog Legacy nd x = xs @ i # ys" "can_await i"
  shows "ChildrenCompleted \<in> set xs"
  using assms
  by (cases "a_enter x"; cases "n_parent nd")
    (auto simp: prog_def enter_prog_def leave_prog_def apply_prog_def Let_def
      Cons_eq_append_conv can_await_def)

lemma Legacy_has_gate: "ChildrenCompleted \<in> set (prog Legacy nd x)"
  by (simp add: prog_def enter_prog_def leave_prog_def apply_prog_def Let_def)

lemma start_Legacy_past:
  assumes "n < length (nodes s)" "start Legacy n e t s = Inr s'"
  shows "ChildrenCompleted \<in> set (take (a_pc (the_act s' n (length (n_acts (the_node s n)))))
     (prog Legacy (the_node s' n) (the_act s' n (length (n_acts (the_node s n))))))"
proof -
  let ?a = "length (n_acts (the_node s n))"
  let ?s = "upd_node n (\<lambda>nd. nd\<lparr>n_acts := n_acts nd @ [new_act e t]\<rparr>) s"
  have x: "the_act ?s n ?a = new_act e t"
    using assms(1) by (simp add: the_act_def the_node_upd_node)
  have r: "run_from Legacy n ?a (drop (a_pc (the_act ?s n ?a))
             (prog Legacy (the_node ?s n) (the_act ?s n ?a))) ?s = Inr s'"
    using assms(2) by (simp add: start_def continue_def Let_def)
  let ?p = "prog Legacy (the_node ?s n) (the_act ?s n ?a)"
  let ?k = "a_pc (the_act s' n ?a)"
  have st: "prog Legacy (the_node s' n) (the_act s' n ?a) = ?p
     \<and> (length ?p \<le> ?k \<or> (?k < length ?p \<and> can_await (?p ! ?k)))"
    using assms(1) x
    by (intro run_from_stops [OF _ _ _ refl r]) (simp_all add: the_node_upd_node new_act_def)
  show ?thesis
  proof (cases "length ?p \<le> ?k")
    case True
    then have "take ?k ?p = ?p" by simp
    then show ?thesis using st Legacy_has_gate [of "the_node ?s n" "the_act ?s n ?a"]
      by (simp only:)
  next
    case False
    then have k: "?k < length ?p" "can_await (?p ! ?k)"
      using st by blast+
    have "?p = take ?k ?p @ ?p ! ?k # drop (Suc ?k) ?p"
      using k(1) by (rule id_take_nth_drop)
    then have "ChildrenCompleted \<in> set (take ?k ?p)"
      using k(2) by (rule Legacy_await_after_gate)
    then show ?thesis using st by (simp only:)
  qed
qed


lemma execute_micro:
  assumes "n < length (nodes s)" "tag_ok s n t" "execute v n shw t s = Inr s'"
  shows "(micro v)\<^sup>*\<^sup>* s s'"
proof (cases v)
  case Legacy
  let ?nd = "the_node s n"
  let ?f = "\<lambda>nd. nd\<lparr> n_wrapper := True,
                n_elDisplay := (if truthy shw then (if p_appear (n_props ?nd) then ''none'' else [])
                                 else (if p_appear (n_props ?nd) then [] else ''none'')) \<rparr>"
  let ?s1 = "if \<not> n_run ?nd then upd_node n ?f s else s"
  have e: "bind (if n_run ?nd \<or> p_appear (n_props ?nd)
                 then start Legacy n (truthy shw) t ?s1 else Inr ?s1)
             (\<lambda>s2. Inr (upd_node n (\<lambda>nd. nd\<lparr>n_run := True\<rparr>)
                          (sent n (length (n_acts ?nd)) (store_set n shw s2)))) = Inr s'"
    by (rule if_Inl_Inr [OF assms(3) [unfolded Legacy execute_Legacy]])
  then obtain s2 where s2: "(if n_run ?nd \<or> p_appear (n_props ?nd)
                        then start Legacy n (truthy shw) t ?s1 else Inr ?s1) = Inr s2"
    and s': "s' = upd_node n (\<lambda>nd. nd\<lparr>n_run := True\<rparr>)
                   (sent n (length (n_acts ?nd)) (store_set n shw s2))"
    unfolding bind_Inr_iff by blast
  have h: "harmless ?f"
    by (simp add: harmless_def static_def)
  have m1: "(micro v)\<^sup>*\<^sup>* s ?s1"
    using micro_local_star [OF h, of v s n] by simp
  have t1: "tag_ok ?s1 n t" "n < length (nodes ?s1)"
    using assms(1,2) h by simp_all
  have m2: "(micro v)\<^sup>*\<^sup>* ?s1 s2"
  proof (cases "n_run ?nd \<or> p_appear (n_props ?nd)")
    case True
    then have "start v n (truthy shw) t ?s1 = Inr s2"
      using s2 Legacy by simp
    then show ?thesis
      by (rule start_micro [OF t1(2) t1(1)])
  next
    case False
    then have "s2 = ?s1" using s2 by simp
    then show ?thesis by simp
  qed
  have m3: "micro v s2 (store_set n shw s2)"
    by (rule mi_set)
  have m4: "micro v (store_set n shw s2) (sent n (length (n_acts ?nd)) (store_set n shw s2))"
  proof (rule mi_sent, intro impI)
    assume "n < length (nodes (store_set n shw s2))
        \<and> length (n_acts ?nd) < length (n_acts (the_node (store_set n shw s2) n))"
    then have l: "length (n_acts ?nd) < length (n_acts (the_node s2 n))"
      by simp
    have st: "n_run ?nd \<or> p_appear (n_props ?nd)"
    proof (rule ccontr)
      assume "\<not> (n_run ?nd \<or> p_appear (n_props ?nd))"
      then have "s2 = ?s1" using s2 by simp
      then show False using l h by (simp split: if_splits)
    qed
    then have "start Legacy n (truthy shw) t ?s1 = Inr s2"
      using s2 by simp
    moreover have "length (n_acts (the_node ?s1 n)) = length (n_acts ?nd)"
      using h by simp
    ultimately have "ChildrenCompleted \<in> set (take (a_pc (the_act s2 n (length (n_acts ?nd))))
        (prog Legacy (the_node s2 n) (the_act s2 n (length (n_acts ?nd)))))"
      using start_Legacy_past [of n ?s1 "truthy shw" t s2] t1(2) by simp
    then show "ChildrenCompleted \<in> set (take (a_pc (the_act (store_set n shw s2) n (length (n_acts ?nd))))
        (prog v (the_node (store_set n shw s2) n)
           (the_act (store_set n shw s2) n (length (n_acts ?nd)))))"
      using Legacy prog_static [of "the_node (store_set n shw s2) n" "the_node s2 n"
          "the_act s2 n (length (n_acts ?nd))" "the_act s2 n (length (n_acts ?nd))" Legacy]
      by simp
  qed
  have m5: "micro v (sent n (length (n_acts ?nd)) (store_set n shw s2)) s'"
    unfolding s' by (rule mi_local) simp
  show ?thesis
    using m1 m2 m3 m4 m5 by (meson rtranclp.rtrancl_into_rtrancl rtranclp_trans)
next
  case Slots
  let ?nd = "the_node s n"
  obtain s1 where s1: "(if n_run ?nd then start Slots n (truthy shw) t s else Inr s) = Inr s1"
    and s': "s' = upd_node n (\<lambda>nd. nd\<lparr>n_run := True\<rparr>) s1"
    using assms(3) unfolding Slots execute_Slots bind_Inr_iff by blast
  have m1: "(micro v)\<^sup>*\<^sup>* s s1"
  proof (cases "n_run ?nd")
    case True
    then have "start v n (truthy shw) t s = Inr s1"
      using s1 Slots by simp
    then show ?thesis
      by (rule start_micro [OF assms(1,2)])
  next
    case False
    then have "s1 = s" using s1 by simp
    then show ?thesis by simp
  qed
  have "micro v s1 s'"
    unfolding s' by (rule mi_local) simp
  then show ?thesis
    using m1 by simp
next
  case Runes
  let ?nd = "the_node s n"
  show ?thesis
  proof (cases "n_run ?nd")
    case True
    then have "bind (start Runes n (truthy shw) t s)
             (\<lambda>s1. Inr (upd_node n
                     (\<lambda>x. x\<lparr> n_executing := OfAct (length (n_acts ?nd)),
                              n_run := True \<rparr>) s1)) = Inr s'"
      using assms(3) unfolding Runes execute_Runes by simp
    then obtain s1 where s1: "start Runes n (truthy shw) t s = Inr s1"
      and s': "s' = upd_node n (\<lambda>x. x\<lparr> n_executing := OfAct (length (n_acts ?nd)),
                                        n_run := True \<rparr>) s1"
      unfolding bind_Inr_iff by blast
    have m1: "(micro v)\<^sup>*\<^sup>* s s1"
      using s1 start_micro [OF assms(1,2)] Runes by simp
    have "micro v s1 s'"
      unfolding s' by (rule mi_local) simp
    then show ?thesis
      using m1 by simp
  next
    case False
    then have s': "s' = upd_node n (\<lambda>x. x\<lparr>n_executing := Resolved, n_run := True\<rparr>) s"
      using assms(3) unfolding Runes execute_Runes by simp
    have "micro v s s'"
      unfolding s' by (rule mi_local) simp
    then show ?thesis by simp
  qed
qed


lemma set_tl_subset: "set (tl xs) \<subseteq> set xs"
  by (cases xs) auto

lemma micro_step_star: "micro v s s' \<Longrightarrow> (micro v)\<^sup>*\<^sup>* s' s'' \<Longrightarrow> (micro v)\<^sup>*\<^sup>* s s''"
  by simp

lemma init_micro:
  assumes "init v n s = Inr s'"
  shows "(micro v)\<^sup>*\<^sup>* s s'"
proof -
  let ?nd = "the_node s n"
  let ?f = "\<lambda>nd. nd\<lparr> n_life := Active,
                    n_run := (case v of Legacy \<Rightarrow> False
                                      | Slots \<Rightarrow> p_appear (n_props nd)
                                      | Runes \<Rightarrow> c_appear (n_context nd)),
                    n_el := (case v of Legacy \<Rightarrow> slot_rendered v nd | _ \<Rightarrow> n_el nd) \<rparr>"
  let ?s1 = "upd_node n ?f s"
  have v: "n < length (nodes s)"
    using assms by (simp add: init_def split: if_splits)
  have h: "harmless ?f"
    by (simp add: harmless_def static_def)
  have m1: "micro v s ?s1"
    by (rule mi_local [OF h])
  show ?thesis
  proof (cases "n_parent ?nd")
    case None
    then have e: "execute v n (p_show (n_props ?nd)) 0 ?s1 = Inr s'"
      using assms v by (simp add: init_def Let_def split: if_splits)
    have "(micro v)\<^sup>*\<^sup>* ?s1 s'"
      using v by (intro execute_micro [OF _ _ e]) simp_all
    then show ?thesis
      using m1 by simp
  next
    case (Some q)
    let ?s2 = "upd_ctx q (\<lambda>c. c\<lparr>c_count := c_count c + 1, c_subs := c_subs c @ [n]\<rparr>) ?s1"
    have e: "execute v n (c_show (n_context (the_node s q)))
               (c_installs (n_context (the_node s q))) ?s2 = Inr s'"
      using assms v Some by (simp add: init_def Let_def split: if_splits)
    have p: "n_parent (the_node ?s1 n) = Some q"
      using Some by simp
    have m2: "micro v ?s1 ?s2"
      using v p by (intro mi_subscribe) simp_all
    have t: "tag_ok ?s2 n (c_installs (n_context (the_node s q)))"
      using Some h by (simp add: tag_ok_def)
    have "(micro v)\<^sup>*\<^sup>* ?s2 s'"
      using v by (intro execute_micro [OF _ t e]) simp
    then show ?thesis
      using m1 m2 by (meson micro_step_star)
  qed
qed


lemma update_micro:
  assumes "update v n shw s = Inr s'"
  shows "(micro v)\<^sup>*\<^sup>* s s'"
proof -
  let ?s1 = "upd_node n (\<lambda>nd. nd\<lparr>n_props := (n_props nd)\<lparr>p_show := shw\<rparr>\<rparr>) s"
  have v: "n < length (nodes s)"
    using assms by (simp add: update_def split: if_splits)
  have m1: "micro v s ?s1"
    by (rule mi_local) simp
  show ?thesis
  proof (cases "v = Runes")
    case True
    then have "s' = upd_node n (\<lambda>nd. nd\<lparr>n_thens := n_thens nd @ [(n_executing nd, shw)]\<rparr>) ?s1"
      using assms v by (simp add: update_def Let_def split: if_splits)
    then have "micro v ?s1 s'"
      by (simp add: mi_local)
    then show ?thesis
      using m1 by (meson micro_step_star rtranclp.rtrancl_refl)
  next
    case False
    then have e: "execute v n shw 0 ?s1 = Inr s'"
      using assms v by (cases v) (simp_all add: update_def Let_def split: if_splits)
    have "(micro v)\<^sup>*\<^sup>* ?s1 s'"
      using v by (intro execute_micro [OF _ _ e]) simp_all
    then show ?thesis
      using m1 by simp
  qed
qed

lemma destroy_micro:
  assumes "destroy n s = Inr s'"
  shows "(micro v)\<^sup>*\<^sup>* s s'"
proof -
  let ?s1 = "upd_node n (\<lambda>nd. nd\<lparr>n_life := Destroyed\<rparr>) s"
  have v: "n < length (nodes s)"
    using assms by (simp add: destroy_def split: if_splits)
  have m1: "micro v s ?s1"
    by (rule mi_local) simp
  show ?thesis
  proof (cases "n_parent (the_node s n)")
    case None
    then have "s' = ?s1"
      using assms v by (simp add: destroy_def Let_def split: if_splits)
    then show ?thesis
      using m1 by simp
  next
    case (Some q)
    have s': "s' = upd_ctx q (\<lambda>c. c\<lparr>c_subs := removeAll n (c_subs c),
                                      c_count := c_count c - 1\<rparr>) ?s1"
      using assms v Some by (simp add: destroy_def Let_def split: if_splits)
    have "n_parent (the_node ?s1 n) = Some q"
      using Some by simp
    then have m3: "micro v ?s1 s'"
      unfolding s' using v by (intro mi_unsubscribe) simp_all
    show ?thesis
      using m1 m3 by (meson micro_step_star rtranclp.rtrancl_refl)
  qed
qed

lemma deliver_micro:
  assumes "tags_ok s" "deliver v n s = Inr s'"
  shows "(micro v)\<^sup>*\<^sup>* s s'"
proof -
  let ?s0 = "s\<lparr>queue := tl (queue s)\<rparr>"
  let ?s1 = "upd_node n (\<lambda>nd. nd\<lparr>n_inbox := tl (n_inbox nd)\<rparr>) ?s0"
  have v: "n < length (nodes s)"
    using assms(2) by (simp add: deliver_def split: if_splits)
  obtain shw t rest where i: "n_inbox (the_node s n) = (shw, t) # rest"
    using assms(2) v by (cases "n_inbox (the_node s n)") (auto simp: deliver_def split: if_splits)
  have e: "execute v n shw t ?s1 = Inr s'"
    using assms(2) v i by (simp add: deliver_def split: if_splits)
  have h: "harmless (\<lambda>nd. nd\<lparr>n_inbox := tl (n_inbox nd)\<rparr>)"
    by (simp add: harmless_def static_def set_tl_subset)
  have m0: "micro v s ?s0"
    by (rule mi_queue)
  have m1: "micro v ?s0 ?s1"
    by (rule mi_local [OF h])
  have "tag_ok s n t"
    using assms(1) v i by (fastforce simp: tags_ok_def)
  then have "tag_ok ?s0 n t"
    by simp
  then have t: "tag_ok ?s1 n t"
    using h by simp
  have "(micro v)\<^sup>*\<^sup>* ?s1 s'"
    using v by (intro execute_micro [OF _ t e]) simp
  then show ?thesis
    using m0 m1 by (meson micro_step_star)
qed

lemma resume_micro:
  assumes "resume v n a s = Inr s'"
  shows "(micro v)\<^sup>*\<^sup>* s s'"
proof -
  have v: "n < length (nodes s)" "a < length (n_acts (the_node s n))"
    using assms by (simp_all add: resume_def split: if_splits)
  obtain w where w: "a_wait (the_act s n a) = Some w" "ready s (the_act s n a) w"
    using assms v by (cases "a_wait (the_act s n a)") (auto simp: resume_def split: if_splits)
  let ?s1 = "upd_act n a (\<lambda>x. x\<lparr>a_wait := None, a_pc := a_pc x + 1\<rparr>) s"
  have c: "continue v n a ?s1 = Inr s'"
    using assms v w by (simp add: resume_def)
  have m1: "micro v s ?s1"
    by (rule mi_resume [OF v w])
  have r: "run_from v n a (drop (a_pc (the_act ?s1 n a))
             (prog v (the_node ?s1 n) (the_act ?s1 n a))) ?s1 = Inr s'"
    using c by (simp add: continue_def Let_def)
  have "(micro v)\<^sup>*\<^sup>* ?s1 s'"
    using v by (intro run_from_micro [OF _ _ _ refl r]) (simp_all add: the_act_upd_act)
  then show ?thesis
    using m1 by simp
qed

lemma then_micro:
  assumes "then_callback v n k s = Inr s'"
  shows "(micro v)\<^sup>*\<^sup>* s s'"
proof -
  let ?s1 = "upd_node n (\<lambda>nd. nd\<lparr>n_thens := take k (n_thens nd) @ drop (Suc k) (n_thens nd)\<rparr>) s"
  have v: "n < length (nodes s)"
    using assms by (simp add: then_callback_def split: if_splits)
  obtain e shw where "n_thens (the_node s n) ! k = (e, shw)"
    by (cases "n_thens (the_node s n) ! k")
  then have e: "execute v n shw 0 ?s1 = Inr s'"
    using assms v by (simp add: then_callback_def split: if_splits)
  have h: "harmless (\<lambda>nd. nd\<lparr>n_thens := take k (n_thens nd) @ drop (Suc k) (n_thens nd)\<rparr>)"
    by (simp add: harmless_def static_def)
  have m1: "micro v s ?s1"
    by (rule mi_local [OF h])
  have "(micro v)\<^sup>*\<^sup>* ?s1 s'"
    using v by (intro execute_micro [OF _ _ e]) simp_all
  then show ?thesis
    using m1 by simp
qed

lemma step_micro:
  assumes "tags_ok s" "step v l s = Inr s'"
  shows "(micro v)\<^sup>*\<^sup>* s s'"
proof -
  have b: "(case l of
        Create p anc \<Rightarrow>
          (if (case anc of None \<Rightarrow> True | Some q \<Rightarrow> q < length (nodes s))
           then Inr (s\<lparr>nodes := nodes s @ [new_node v p anc s]\<rparr>)
           else Inl NotEnabled)
      | Init n \<Rightarrow> init v n s
      | Update n shw \<Rightarrow> update v n shw s
      | Destroy n \<Rightarrow> destroy n s
      | Deliver n \<Rightarrow> deliver v n s
      | Resume n a \<Rightarrow> resume v n a s
      | Then n k \<Rightarrow> then_callback v n k s
      | AnimationFrame \<Rightarrow> Inr (animation_frame s)
      | NativeTransitionEnd ns \<Rightarrow>
          (if ns \<noteq> [] \<and> chain s ns then Inr (transition_end ns s) else Inl NotEnabled))
      = Inr s'"
    using assms(2) unfolding step_def by (rule if_Inl_Inr)
  show ?thesis
  proof (cases l)
  case (Create p anc)
  then have "(case anc of None \<Rightarrow> True | Some q \<Rightarrow> q < length (nodes s))"
    and "s' = s\<lparr>nodes := nodes s @ [new_node v p anc s]\<rparr>"
    using b by (simp_all split: if_splits)
  then show ?thesis
    using mi_create [where anc = anc and s = s and v = v and p = p] by simp
next
  case (Init n)
  then show ?thesis using b init_micro by simp
next
  case (Update n shw)
  then show ?thesis using b update_micro by simp
next
  case (Destroy n)
  then show ?thesis using b destroy_micro by simp
next
  case (Deliver n)
  then show ?thesis using assms(1) b deliver_micro by simp
next
  case (Resume n a)
  then show ?thesis using b resume_micro by simp
next
  case (Then n k)
  then show ?thesis using b then_micro by simp
next
  case AnimationFrame
  then show ?thesis using b mi_frame [of v s] by auto
next
  case (NativeTransitionEnd ns)
  then show ?thesis using b mi_end [of v s ns] by (auto split: if_splits)
  qed
qed



section \<open>Properties of the class strings\<close>

lemma classes_no_empty: "[] \<notin> set (classes s)"
  by (simp add: classes_def)

lemma split_space_no_space: "w \<in> set (split_space s) \<Longrightarrow> CHR '' '' \<notin> set w"
  by (induction s arbitrary: w) (auto split: list.splits if_splits)

lemma class_args_apply_prog:
  "set (concat (map class_args (apply_prog v hp shw b f t))) \<subseteq> set b \<union> set f \<union> set t"
  by (cases v) (auto simp: apply_prog_def class_args_def)

lemma class_args_enter_prog:
  "set (concat (map class_args (enter_prog v nd)))
     \<subseteq> set (enterClasses (n_props nd)) \<union> set (enterFromClasses (n_props nd))
        \<union> set (enterToClasses (n_props nd))"
  using class_args_apply_prog [of v "n_parent nd \<noteq> None" True "enterClasses (n_props nd)"
      "enterFromClasses (n_props nd)" "enterToClasses (n_props nd)"]
  by (cases v) (auto simp: enter_prog_def class_args_def Let_def)

lemma class_args_leave_prog:
  "set (concat (map class_args (leave_prog v nd)))
     \<subseteq> set (leaveClasses (n_props nd)) \<union> set (leaveFromClasses (n_props nd))
        \<union> set (leaveToClasses (n_props nd))"
  using class_args_apply_prog [of v "n_parent nd \<noteq> None" False "leaveClasses (n_props nd)"
      "leaveFromClasses (n_props nd)" "leaveToClasses (n_props nd)"]
  by (cases v) (auto simp: leave_prog_def class_args_def Let_def)

text \<open>
  C5. Each leave-side input that is not given falls back on its own: \<^verbatim>\<open>leave\<close> on
  \<^verbatim>\<open>enter\<close>, \<^verbatim>\<open>leaveFrom\<close> on \<^verbatim>\<open>enterTo\<close>, \<^verbatim>\<open>leaveTo\<close> on \<^verbatim>\<open>enterFrom\<close>; a leave-side
  input that is given replaces its own field only, whatever the other two are; and the
  class lists are those of the resulting strings. With \<^verbatim>\<open>enter="a"\<close>,
  \<^verbatim>\<open>enterFrom="b"\<close>, \<^verbatim>\<open>enterTo="c"\<close> and no leave-side input the three strings are
  \<^verbatim>\<open>"a"\<close>, \<^verbatim>\<open>"c"\<close>, \<^verbatim>\<open>"b"\<close>.
\<close>

theorem leave_defaults:
  "leave_string (p\<lparr>p_leave := None, p_leaveFrom := x, p_leaveTo := y\<rparr>) = p_enter p
   \<and> leaveFrom_string (p\<lparr>p_leave := z, p_leaveFrom := None, p_leaveTo := y\<rparr>) = p_enterTo p
   \<and> leaveTo_string (p\<lparr>p_leave := z, p_leaveFrom := x, p_leaveTo := None\<rparr>) = p_enterFrom p
   \<and> leave_string (p\<lparr>p_leave := Some l, p_leaveFrom := x, p_leaveTo := y\<rparr>) = l
   \<and> leaveFrom_string (p\<lparr>p_leave := z, p_leaveFrom := Some l, p_leaveTo := y\<rparr>) = l
   \<and> leaveTo_string (p\<lparr>p_leave := z, p_leaveFrom := x, p_leaveTo := Some l\<rparr>) = l
   \<and> leaveClasses p = classes (leave_string p)
   \<and> leaveFromClasses p = classes (leaveFrom_string p)
   \<and> leaveToClasses p = classes (leaveTo_string p)
   \<and> (let q = \<lparr> p_show = sh, p_appear = ap, p_unmount = um,
                  p_enter = ''a'', p_enterFrom = ''b'', p_enterTo = ''c'',
                  p_leave = None, p_leaveFrom = None, p_leaveTo = None \<rparr>
      in leave_string q = ''a'' \<and> leaveFrom_string q = ''c'' \<and> leaveTo_string q = ''b''
         \<and> leaveClasses q = [''a''] \<and> leaveFromClasses q = [''c'']
         \<and> leaveToClasses q = [''b''])"
  by (simp add: leave_string_def leaveFrom_string_def leaveTo_string_def leaveClasses_def
      leaveFromClasses_def leaveToClasses_def classes_def)

theorem leave_defaults_witness:
  "(let p = \<lparr> p_show = Some True, p_appear = False, p_unmount = False,
               p_enter = ''fade in'', p_enterFrom = ''o-0'', p_enterTo = ''o-100'',
               p_leave = None, p_leaveFrom = Some ''x y'', p_leaveTo = None \<rparr>
    in leave_string p = ''fade in'' \<and> leaveFrom_string p = ''x y''
       \<and> leaveTo_string p = ''o-0'' \<and> leaveClasses p = [''fade'', ''in''])"
  using leave_defaults [where p = "\<lparr> p_show = Some True, p_appear = False, p_unmount = False,
               p_enter = ''fade in'', p_enterFrom = ''o-0'', p_enterTo = ''o-100'',
               p_leave = None, p_leaveFrom = Some ''x y'', p_leaveTo = None \<rparr>"]
  by (simp add: leave_string_def leaveFrom_string_def leaveTo_string_def leaveClasses_def
      classes_def)

text \<open>
  C10. \<^verbatim>\<open>classes\<close> gives the empty list for the empty string; its result is the list
  of the non-empty pieces between single spaces, so it holds no empty name (and no name
  with a space in it), whatever spaces lead, trail or repeat; and every class list that
  a statement of \<^verbatim>\<open>enter\<close> or \<^verbatim>\<open>leave\<close> passes to \<^verbatim>\<open>classList.add\<close> or
  \<^verbatim>\<open>classList.remove\<close> is made of results of \<^verbatim>\<open>classes\<close>, so no empty name is passed.
\<close>

theorem classes_no_empty_name:
  "classes [] = []
   \<and> classes s = filter (\<lambda>x. x \<noteq> []) (split_space s)
   \<and> [] \<notin> set (classes s)
   \<and> (\<forall>t \<in> set (classes s). CHR '' '' \<notin> set t)
   \<and> classes ''  a   b  '' = [''a'', ''b'']
   \<and> [] \<notin> set (concat (map class_args (enter_prog v nd)))
   \<and> [] \<notin> set (concat (map class_args (leave_prog v nd)))"
proof -
  have a: "classes s = filter (\<lambda>x. x \<noteq> []) (split_space s)"
    by (cases s) (simp_all add: classes_def)
  have b: "\<forall>t \<in> set (classes s). CHR '' '' \<notin> set t"
    by (auto simp: classes_def dest: split_space_no_space split: if_splits)
  have c: "[] \<notin> set (concat (map class_args (enter_prog v nd)))"
    using class_args_enter_prog [of v nd]
    by (auto simp: enterClasses_def enterFromClasses_def enterToClasses_def classes_def)
  have d: "[] \<notin> set (concat (map class_args (leave_prog v nd)))"
    using class_args_leave_prog [of v nd]
    by (auto simp: leaveClasses_def leaveFromClasses_def leaveToClasses_def classes_def)
  have e: "classes ''  a   b  '' = [''a'', ''b'']"
    by (simp add: classes_def)
  show ?thesis
    using a b c d e by (simp add: classes_def)
qed

theorem classes_no_empty_name_witness:
  "classes '' x  y '' = [''x'', ''y''] \<and> [] \<notin> set (classes '' x  y '')
   \<and> CHR '' '' \<notin> set (concat (classes '' x  y ''))"
  using classes_no_empty_name [of "'' x  y ''"]
  by (simp add: classes_def)


section \<open>What a call of execute leaves alone\<close>

lemma store_set_other:
  "k \<noteq> n \<Longrightarrow> n_context (the_node (store_set n shw s) k) = n_context (the_node s k)"
  using store_set_node [of n shw s k] by auto

lemma exec_other:
  assumes "exec v n a i s = Inr (w, s1)" "i \<noteq> AwaitParentCompleted" "m \<noteq> n"
  shows "n_acts (the_node s1 m) = n_acts (the_node s m)
       \<and> n_context (the_node s1 m) = n_context (the_node s m)"
  using assms
  by (cases i)
    (auto simp: exec_def bind_Inr_iff transitionEnd_def store_set_other
      childrenCompleted_def ensureMountedElement_def bind_el_def Let_def
      the_node_upd_node the_node_upd_act the_node_upd_ctx
      split: if_splits option.splits)

lemma exec_suspends:
  assumes "exec v n a i s = Inr (w, s1)" "i = AwaitMounted \<or> i = AwaitNextFrame"
  shows "w \<noteq> None"
  using assms by (auto simp: exec_def)

lemma run_from_other:
  assumes "own_segment is" "run_from v n a is s = Inr s'" "m \<noteq> n"
  shows "n_acts (the_node s' m) = n_acts (the_node s m)
       \<and> n_context (the_node s' m) = n_context (the_node s m)"
  using assms
proof (induction "is" arbitrary: s)
  case Nil
  then show ?case by simp
next
  case (Cons i "is")
  obtain w s1 where e: "exec v n a i s = Inr (w, s1)"
    using Cons.prems(2) by (cases "exec v n a i s") auto
  show ?case
  proof (cases w)
    case None
    then have r: "run_from v n a is (upd_act n a (\<lambda>x. x\<lparr>a_pc := a_pc x + 1\<rparr>) s1) = Inr s'"
      using Cons.prems(2) e by simp
    have i: "i \<noteq> AwaitParentCompleted" "own_segment is"
      using Cons.prems(1) exec_suspends [OF e] None by auto
    have "n_acts (the_node s' m) = n_acts (the_node (upd_act n a (\<lambda>x. x\<lparr>a_pc := a_pc x + 1\<rparr>) s1) m)
       \<and> n_context (the_node s' m) = n_context (the_node (upd_act n a (\<lambda>x. x\<lparr>a_pc := a_pc x + 1\<rparr>) s1) m)"
      by (rule Cons.IH [OF i(2) r Cons.prems(3)])
    then show ?thesis
      using exec_other [OF e i(1) Cons.prems(3)] Cons.prems(3) by (simp add: the_node_upd_act)
  next
    case (Some w')
    then have s': "s' = upd_act n a (\<lambda>x. x\<lparr>a_wait := Some w'\<rparr>) s1"
      using Cons.prems(2) e by simp
    have "i \<noteq> AwaitParentCompleted"
      using Cons.prems(1) by auto
    then show ?thesis
      using exec_other [OF e _ Cons.prems(3)] Cons.prems(3) by (simp add: s' the_node_upd_act)
  qed
qed

lemma own_segment_prog: "own_segment (prog v nd x)"
  by (cases v) (simp_all add: prog_def enter_prog_def leave_prog_def apply_prog_def Let_def)

lemma start_other:
  assumes "start v n e t s = Inr s'" "m \<noteq> n" "n < length (nodes s)"
  shows "n_acts (the_node s' m) = n_acts (the_node s m)
       \<and> n_context (the_node s' m) = n_context (the_node s m)"
proof -
  let ?s1 = "upd_node n (\<lambda>nd. nd\<lparr>n_acts := n_acts nd @ [new_act e t]\<rparr>) s"
  let ?a = "length (n_acts (the_node s n))"
  have "the_act ?s1 n ?a = new_act e t"
    using assms(3) by (simp add: the_act_def the_node_upd_node)
  then have "run_from v n ?a (prog v (the_node ?s1 n) (new_act e t)) ?s1 = Inr s'"
    using assms(1) by (simp add: start_def continue_def Let_def new_act_def)
  then have "n_acts (the_node s' m) = n_acts (the_node ?s1 m)
       \<and> n_context (the_node s' m) = n_context (the_node ?s1 m)"
    using assms(2) by (intro run_from_other [OF own_segment_prog])
  then show ?thesis
    using assms(2) by (simp add: the_node_upd_node)
qed

lemma execute_other:
  assumes "execute v n shw t s = Inr s'" "m \<noteq> n" "n < length (nodes s)"
  shows "n_acts (the_node s' m) = n_acts (the_node s m)
       \<and> n_context (the_node s' m) = n_context (the_node s m)"
proof (cases v)
  case Legacy
  then show ?thesis
    using assms start_other [of Legacy n "truthy shw" t _ _ m]
    by (auto simp: execute_Legacy bind_Inr_iff sent_def store_set_other the_node_upd_node the_node_upd_act
        split: if_splits)
next
  case Slots
  then show ?thesis
    using assms start_other [of Slots n "truthy shw" t s _ m]
    by (auto simp: execute_Slots bind_Inr_iff the_node_upd_node split: if_splits)
next
  case Runes
  then show ?thesis
    using assms start_other [of Runes n "truthy shw" t s _ m]
    by (auto simp: execute_Runes bind_Inr_iff the_node_upd_node split: if_splits)
qed

lemma init_child:
  assumes "init v m s = Inr s'" "n_parent (the_node s m) = Some q" "q \<noteq> m" "q < length (nodes s)"
  shows "c_count (n_context (the_node s' q)) = c_count (n_context (the_node s q)) + 1
     \<and> c_completed (n_context (the_node s' q)) = c_completed (n_context (the_node s q))
     \<and> n_acts (the_node s' q) = n_acts (the_node s q)"
proof -
  let ?s1 = "upd_node m (\<lambda>nd. nd\<lparr> n_life := Active,
                    n_run := (case v of Legacy \<Rightarrow> False
                                      | Slots \<Rightarrow> p_appear (n_props nd)
                                      | Runes \<Rightarrow> c_appear (n_context nd)),
                    n_el := (case v of Legacy \<Rightarrow> slot_rendered v nd | _ \<Rightarrow> n_el nd) \<rparr>) s"
  let ?s2 = "upd_ctx q (\<lambda>c. c\<lparr>c_count := c_count c + 1, c_subs := c_subs c @ [m]\<rparr>) ?s1"
  have v: "m < length (nodes s)"
    using assms(1) by (simp add: init_def split: if_splits)
  have "execute v m (c_show (n_context (the_node s q))) (c_installs (n_context (the_node s q))) ?s2 = Inr s'"
    using assms(1,2) v by (simp add: init_def Let_def split: if_splits)
  then have "n_acts (the_node s' q) = n_acts (the_node ?s2 q)
       \<and> n_context (the_node s' q) = n_context (the_node ?s2 q)"
    using assms(3) v by (intro execute_other) simp_all
  then show ?thesis
    using assms(3,4) by (simp add: the_node_upd_ctx the_node_upd_node)
qed


section \<open>What a call of execute starts\<close>











section \<open>The counting gate\<close>

lemma completed_frame:
  "length (nodes (snd (completed v q c s))) = length (nodes s)"
  "length (n_acts (the_node (snd (completed v q c s)) m)) = length (n_acts (the_node s m))"
  "n_context (the_node (snd (completed v q c s)) m) = n_context (the_node s m)"
  by (auto simp: completed_def Let_def split: option.splits)

lemma completed_gate:
  assumes "q < length (nodes s)" "g < length (n_acts (the_node s q))"
    "c_completed (n_context (the_node s q)) = Some g"
  shows "the_act (snd (completed v q c s)) q g =
     (the_act s q g)\<lparr> a_count := a_count (the_act s q g) + 1,
       a_children := (a_children (the_act s q g)
          \<or> a_count (the_act s q g) + 1 = c_count (n_context (the_node s q))),
       a_resolves := a_resolves (the_act s q g)
          + (if a_count (the_act s q g) + 1 = c_count (n_context (the_node s q)) then 1 else 0),
       a_reports := a_reports (the_act s q g) @ [c] \<rparr>"
  using assms by (simp add: completed_def Let_def the_act_upd_act)

lemma reports_gate:
  assumes "q < length (nodes s)" "g < length (n_acts (the_node s q))"
    "c_completed (n_context (the_node s q)) = Some g"
    "c_count (n_context (the_node s q)) = int N" "0 < N"
    "a_count (the_act s q g) = int k"
    "a_children (the_act s q g) = (N \<le> k)"
  shows "a_count (the_act (reports v q cs s) q g) = int (k + length cs)
     \<and> a_children (the_act (reports v q cs s) q g) = (N \<le> k + length cs)
     \<and> a_resolves (the_act (reports v q cs s) q g) =
         a_resolves (the_act s q g) + (if k < N \<and> N \<le> k + length cs then 1 else 0)
     \<and> a_reports (the_act (reports v q cs s) q g) = a_reports (the_act s q g) @ cs"
  using assms
proof (induction cs arbitrary: s k)
  case Nil
  then show ?case by simp
next
  case (Cons c cs)
  let ?s = "snd (completed v q c s)"
  have g: "the_act ?s q g = (the_act s q g)\<lparr> a_count := int (Suc k),
       a_children := (N \<le> Suc k),
       a_resolves := a_resolves (the_act s q g) + (if Suc k = N then 1 else 0),
       a_reports := a_reports (the_act s q g) @ [c] \<rparr>"
    using completed_gate [OF Cons.prems(1-3), of v c] Cons.prems(4-7) by auto
  have "a_count (the_act (reports v q cs ?s) q g) = int (Suc k + length cs)
     \<and> a_children (the_act (reports v q cs ?s) q g) = (N \<le> Suc k + length cs)
     \<and> a_resolves (the_act (reports v q cs ?s) q g) =
         a_resolves (the_act ?s q g) + (if Suc k < N \<and> N \<le> Suc k + length cs then 1 else 0)
     \<and> a_reports (the_act (reports v q cs ?s) q g) = a_reports (the_act ?s q g) @ cs"
    using Cons.prems by (intro Cons.IH) (simp_all add: completed_frame g)
  then show ?case by (auto simp: g)
qed

lemma childrenCompleted_zero:
  assumes "n < length (nodes s)" "a < length (n_acts (the_node s n))"
    "c_count (n_context (the_node s n)) = 0"
  shows "a_children (the_act (childrenCompleted n a s) n a)"
    "n_context (the_node (childrenCompleted n a s) n) = n_context (the_node s n)"
  using assms by (simp_all add: childrenCompleted_def the_act_upd_act)

lemma childrenCompleted_nonzero:
  assumes "n < length (nodes s)" "a < length (n_acts (the_node s n))"
    "c_count (n_context (the_node s n)) \<noteq> 0"
  shows "the_act (childrenCompleted n a s) n a =
           (the_act s n a)\<lparr> a_children := False, a_count := 0,
             a_seq := c_installs (n_context (the_node s n)) + 1 \<rparr>"
    "n_context (the_node (childrenCompleted n a s) n) =
           (n_context (the_node s n))\<lparr> c_completed := Some a,
             c_installs := c_installs (n_context (the_node s n)) + 1 \<rparr>"
    "length (nodes (childrenCompleted n a s)) = length (nodes s)"
    "length (n_acts (the_node (childrenCompleted n a s) n)) = length (n_acts (the_node s n))"
  using assms by (simp_all add: childrenCompleted_def the_act_upd_act the_node_upd_ctx)

text \<open>
  C2, with the condition under which it holds. Let the context of a node count \<open>N\<close>
  children when an activation calls \<^verbatim>\<open>childrenCompleted\<close>, and let the count still be \<open>N\<close>
  at every call of \<^verbatim>\<open>context.completed()\<close> that follows (here: only such calls follow, so
  that no child subscribes or is torn down in between and no later activation replaces
  the closure). If \<open>N = 0\<close> the promise is resolved at once, with no call, and the
  context's function is left as it was. If \<open>N > 0\<close> the closure of this activation is
  installed, and after any calls \<open>cs\<close> the promise is resolved exactly when there have
  been at least \<open>N\<close> of them, so at the \<open>N\<close>-th and never before; \<^verbatim>\<open>resolve()\<close> has then
  been called once, however many calls follow.
\<close>

theorem gate_resolves_at_count:
  assumes "n < length (nodes s)" and "a < length (n_acts (the_node s n))"
    and "c_count (n_context (the_node s n)) = int N"
  shows "(N = 0 \<longrightarrow>
            a_children (the_act (childrenCompleted n a s) n a)
          \<and> c_completed (n_context (the_node (childrenCompleted n a s) n))
              = c_completed (n_context (the_node s n)))
       \<and> (0 < N \<longrightarrow>
            c_completed (n_context (the_node (childrenCompleted n a s) n)) = Some a
          \<and> a_children (the_act (reports v n cs (childrenCompleted n a s)) n a)
              = (N \<le> length cs)
          \<and> a_resolves (the_act (reports v n cs (childrenCompleted n a s)) n a)
              = a_resolves (the_act s n a) + (if N \<le> length cs then 1 else 0)
          \<and> a_reports (the_act (reports v n cs (childrenCompleted n a s)) n a)
              = a_reports (the_act s n a) @ cs)"
proof (cases "N = 0")
  case True
  then show ?thesis
    using childrenCompleted_zero [OF assms(1,2)] assms(3) by simp
next
  case False
  then have nz: "c_count (n_context (the_node s n)) \<noteq> 0" and pos: "0 < N"
    using assms(3) by simp_all
  note cc = childrenCompleted_nonzero [OF assms(1,2) nz]
  have "a_count (the_act (reports v n cs (childrenCompleted n a s)) n a) = int (0 + length cs)
     \<and> a_children (the_act (reports v n cs (childrenCompleted n a s)) n a)
          = (N \<le> 0 + length cs)
     \<and> a_resolves (the_act (reports v n cs (childrenCompleted n a s)) n a) =
         a_resolves (the_act (childrenCompleted n a s) n a)
           + (if 0 < N \<and> N \<le> 0 + length cs then 1 else 0)
     \<and> a_reports (the_act (reports v n cs (childrenCompleted n a s)) n a)
          = a_reports (the_act (childrenCompleted n a s) n a) @ cs"
    using assms pos by (intro reports_gate) (simp_all add: cc)
  then show ?thesis
    using pos by (simp add: cc)
qed

lemma run_two_children:
  "ok (run Runes two_children empty_state)"
  "length (nodes (the_state (run Runes two_children empty_state))) = 3"
  "length (n_acts (the_node (the_state (run Runes two_children empty_state)) 0)) = 1"
  "c_count (n_context (the_node (the_state (run Runes two_children empty_state)) 0)) = 2"
  "a_resolves (the_act (the_state (run Runes two_children empty_state)) 0 0) = 0"
  by (simp_all add: two_children_def eval_defs)

theorem gate_resolves_at_count_witness:
  "\<not> a_children (the_act (reports Runes 0 [(1, 0)]
        (childrenCompleted 0 0 (the_state (run Runes two_children empty_state)))) 0 0)
   \<and> a_children (the_act (reports Runes 0 [(1, 0), (2, 0)]
        (childrenCompleted 0 0 (the_state (run Runes two_children empty_state)))) 0 0)
   \<and> a_resolves (the_act (reports Runes 0 [(1, 0), (2, 0), (1, 0)]
        (childrenCompleted 0 0 (the_state (run Runes two_children empty_state)))) 0 0) = 1"
  using gate_resolves_at_count [of 0 "the_state (run Runes two_children empty_state)" 0 2
      Runes "[(1, 0)]"]
    gate_resolves_at_count [of 0 "the_state (run Runes two_children empty_state)" 0 2
      Runes "[(1, 0), (2, 0)]"]
    gate_resolves_at_count [of 0 "the_state (run Runes two_children empty_state)" 0 2
      Runes "[(1, 0), (2, 0), (1, 0)]"]
  by (simp add: run_two_children)


lemma run_gate_installed:
  "length (nodes (the_state (run Runes gate_installed empty_state))) = 3"
  "length (n_acts (the_node (the_state (run Runes gate_installed empty_state)) 0)) = 1"
  "c_count (n_context (the_node (the_state (run Runes gate_installed empty_state)) 0)) = 2"
  "c_completed (n_context (the_node (the_state (run Runes gate_installed empty_state)) 0))
     = Some 0"
  "a_count (the_act (the_state (run Runes gate_installed empty_state)) 0 0) = 0"
  "\<not> a_children (the_act (the_state (run Runes gate_installed empty_state)) 0 0)"
  by (simp_all add: gate_installed_def two_children_def eval_defs)

lemma run_child_torn_down:
  "ok (run Runes child_torn_down empty_state)"
  "c_count (n_context (the_node (the_state (run Runes child_torn_down empty_state)) 0)) = 1"
  "a_reports (the_act (the_state (run Runes child_torn_down empty_state)) 0 0) = [(1, 0)]"
  "a_children (the_act (the_state (run Runes child_torn_down empty_state)) 0 0)"
  by (simp_all add: child_torn_down_def children_called_def gate_installed_def
      two_children_def eval_defs)

text \<open>
  The claim C2 as it is written fails. The root's gate is created while its context
  counts two children (\<open>N = 2\<close>); the store calls both children, then the second child
  is torn down, which brings the count to one; the first child's call of
  \<^verbatim>\<open>parent.completed()\<close> is the first and only report, and it resolves the gate: after
  fewer than \<open>N\<close> reports.
\<close>

theorem gate_resolves_before_count_counterexample:
  "c_count (n_context (the_node (the_state (run Runes gate_installed empty_state)) 0)) = 2
   \<and> c_completed (n_context (the_node (the_state (run Runes gate_installed empty_state)) 0))
       = Some 0
   \<and> \<not> a_children (the_act (the_state (run Runes gate_installed empty_state)) 0 0)
   \<and> ok (run Runes child_torn_down empty_state)
   \<and> a_reports (the_act (the_state (run Runes child_torn_down empty_state)) 0 0) = [(1, 0)]
   \<and> a_children (the_act (the_state (run Runes child_torn_down empty_state)) 0 0)"
  by (simp add: run_gate_installed run_child_torn_down)


lemma destroy_child:
  assumes "m < length (nodes s)" "n_life (the_node s m) = Active"
    "n_parent (the_node s m) = Some q" "q < length (nodes s)" "m \<noteq> q"
  shows "\<exists>s'. destroy m s = Inr s'
     \<and> c_count (n_context (the_node s' q)) = c_count (n_context (the_node s q)) - 1
     \<and> c_completed (n_context (the_node s' q)) = c_completed (n_context (the_node s q))
     \<and> n_acts (the_node s' q) = n_acts (the_node s q)"
  using assms by (simp add: destroy_def the_node_upd_ctx the_node_upd_node)

lemma gate_unchanged_count:
  assumes "q < length (nodes s)" "g < length (n_acts (the_node s q))"
    "c_count (n_context (the_node s q)) = int N" "0 < N"
  shows "a_children (the_act (reports v q cs (childrenCompleted q g s)) q g) = (N \<le> length cs)"
proof -
  have nz: "c_count (n_context (the_node s q)) \<noteq> 0"
    using assms(3,4) by simp
  note cc = childrenCompleted_nonzero [OF assms(1,2) nz]
  have "a_count (the_act (reports v q cs (childrenCompleted q g s)) q g) = int (0 + length cs)
     \<and> a_children (the_act (reports v q cs (childrenCompleted q g s)) q g)
          = (N \<le> 0 + length cs)
     \<and> a_resolves (the_act (reports v q cs (childrenCompleted q g s)) q g) =
         a_resolves (the_act (childrenCompleted q g s) q g)
           + (if 0 < N \<and> N \<le> 0 + length cs then 1 else 0)
     \<and> a_reports (the_act (reports v q cs (childrenCompleted q g s)) q g)
          = a_reports (the_act (childrenCompleted q g s) q g) @ cs"
    using assms by (intro reports_gate) (simp_all add: cc)
  then show ?thesis
    by simp
qed

text \<open>
  C3, as the code has it. \<^verbatim>\<open>childrenCompleted\<close> samples the context's count only to
  decide between a pending promise (count not zero: the closure is installed and its
  counter starts at zero) and a resolved one (count zero). Every call of the installed
  closure adds one to the counter and resolves the promise when the counter then equals
  the context's count as it is at that call. The teardown of a child takes one from the
  count, the mounting of a new child (\<^verbatim>\<open>parent.count++\<close> and the subscription, which calls
  the child's \<^verbatim>\<open>execute\<close>) adds one to it, and both leave the closure and its counter
  alone. So the number of arrivals a gate needs follows the count while the activation
  is in flight; and while the count stays what it was at the sample, \<open>N > 0\<close>, the gate is
  resolved after any calls \<open>cs\<close> exactly when there have been at least \<open>N\<close> of them.
\<close>

theorem gate_compares_live_count:
  assumes "q < length (nodes s)" and "g < length (n_acts (the_node s q))"
  shows "a_children (the_act (childrenCompleted q g s) q g)
           = (c_count (n_context (the_node s q)) = 0)
       \<and> (c_count (n_context (the_node s q)) \<noteq> 0 \<longrightarrow>
            c_completed (n_context (the_node (childrenCompleted q g s) q)) = Some g
          \<and> a_count (the_act (childrenCompleted q g s) q g) = 0)
       \<and> (c_completed (n_context (the_node s q)) = Some g \<longrightarrow>
            a_count (the_act (snd (completed v q c s)) q g) = a_count (the_act s q g) + 1
          \<and> a_children (the_act (snd (completed v q c s)) q g)
              = (a_children (the_act s q g)
                 \<or> a_count (the_act s q g) + 1 = c_count (n_context (the_node s q))))
       \<and> (m < length (nodes s) \<and> n_life (the_node s m) = Active
            \<and> n_parent (the_node s m) = Some q \<and> m \<noteq> q \<longrightarrow>
            (\<exists>s'. destroy m s = Inr s'
              \<and> c_count (n_context (the_node s' q)) = c_count (n_context (the_node s q)) - 1
              \<and> c_completed (n_context (the_node s' q))
                  = c_completed (n_context (the_node s q))
              \<and> the_act s' q g = the_act s q g))
       \<and> (n_parent (the_node s m) = Some q \<and> m \<noteq> q \<longrightarrow>
            (\<forall>s'. init v m s = Inr s' \<longrightarrow>
                c_count (n_context (the_node s' q)) = c_count (n_context (the_node s q)) + 1
              \<and> c_completed (n_context (the_node s' q))
                  = c_completed (n_context (the_node s q))
              \<and> the_act s' q g = the_act s q g))
       \<and> (c_count (n_context (the_node s q)) = int N \<and> 0 < N \<longrightarrow>
            a_children (the_act (reports v q cs (childrenCompleted q g s)) q g)
              = (N \<le> length cs))"
proof -
  have a: "a_children (the_act (childrenCompleted q g s) q g)
           = (c_count (n_context (the_node s q)) = 0)"
    using assms by (simp add: childrenCompleted_def the_act_upd_act)
  have b: "c_count (n_context (the_node s q)) \<noteq> 0 \<longrightarrow>
            c_completed (n_context (the_node (childrenCompleted q g s) q)) = Some g
          \<and> a_count (the_act (childrenCompleted q g s) q g) = 0"
    using childrenCompleted_nonzero [OF assms] by simp
  have c: "c_completed (n_context (the_node s q)) = Some g \<longrightarrow>
            a_count (the_act (snd (completed v q c s)) q g) = a_count (the_act s q g) + 1
          \<and> a_children (the_act (snd (completed v q c s)) q g)
              = (a_children (the_act s q g)
                 \<or> a_count (the_act s q g) + 1 = c_count (n_context (the_node s q)))"
    using completed_gate [OF assms, of v c] by simp
  have d: "m < length (nodes s) \<and> n_life (the_node s m) = Active
            \<and> n_parent (the_node s m) = Some q \<and> m \<noteq> q \<longrightarrow>
            (\<exists>s'. destroy m s = Inr s'
              \<and> c_count (n_context (the_node s' q)) = c_count (n_context (the_node s q)) - 1
              \<and> c_completed (n_context (the_node s' q))
                  = c_completed (n_context (the_node s q))
              \<and> the_act s' q g = the_act s q g)"
    using destroy_child [of m s q] assms(1) by (auto simp: the_act_def)
  have e: "n_parent (the_node s m) = Some q \<and> m \<noteq> q \<longrightarrow>
            (\<forall>s'. init v m s = Inr s' \<longrightarrow>
                c_count (n_context (the_node s' q)) = c_count (n_context (the_node s q)) + 1
              \<and> c_completed (n_context (the_node s' q))
                  = c_completed (n_context (the_node s q))
              \<and> the_act s' q g = the_act s q g)"
    using init_child [of v m s _ q] assms(1) by (auto simp: the_act_def)
  have f: "c_count (n_context (the_node s q)) = int N \<and> 0 < N \<longrightarrow>
            a_children (the_act (reports v q cs (childrenCompleted q g s)) q g)
              = (N \<le> length cs)"
    using gate_unchanged_count [OF assms] by blast
  show ?thesis
    using a b c d e f by blast
qed

lemma run_children_called:
  "length (nodes (the_state (run Runes children_called empty_state))) = 3"
  "length (n_acts (the_node (the_state (run Runes children_called empty_state)) 0)) = 1"
  "c_count (n_context (the_node (the_state (run Runes children_called empty_state)) 0)) = 2"
  "c_completed (n_context (the_node (the_state (run Runes children_called empty_state)) 0))
     = Some 0"
  "a_count (the_act (the_state (run Runes children_called empty_state)) 0 0) = 0"
  "\<not> a_children (the_act (the_state (run Runes children_called empty_state)) 0 0)"
  "n_life (the_node (the_state (run Runes children_called empty_state)) 2) = Active"
  "n_parent (the_node (the_state (run Runes children_called empty_state)) 2) = Some 0"
  by (simp_all add: children_called_def gate_installed_def two_children_def eval_defs)

lemma run_child_created:
  "length (nodes (the_state (run Runes child_created empty_state))) = 3"
  "length (n_acts (the_node (the_state (run Runes child_created empty_state)) 0)) = 1"
  "c_count (n_context (the_node (the_state (run Runes child_created empty_state)) 0)) = 1"
  "c_completed (n_context (the_node (the_state (run Runes child_created empty_state)) 0))
     = Some 0"
  "\<not> a_children (the_act (the_state (run Runes child_created empty_state)) 0 0)"
  "n_parent (the_node (the_state (run Runes child_created empty_state)) 2) = Some 0"
  "ok (init Runes 2 (the_state (run Runes child_created empty_state)))"
  by (simp_all add: child_created_def one_child_def eval_defs)

lemma ok_the_state: "ok r \<Longrightarrow> r = Inr (the_state r)"
  by (cases r) (simp_all add: ok_def the_state_def)

theorem gate_compares_live_count_witness:
  "a_count (the_act (snd (completed Runes 0 (1, 0)
       (the_state (run Runes children_called empty_state)))) 0 0) = 1
   \<and> \<not> a_children (the_act (snd (completed Runes 0 (1, 0)
       (the_state (run Runes children_called empty_state)))) 0 0)
   \<and> (\<exists>s'. destroy 2 (the_state (run Runes children_called empty_state)) = Inr s'
         \<and> c_count (n_context (the_node s' 0)) = 1
         \<and> the_act s' 0 0 = the_act (the_state (run Runes children_called empty_state)) 0 0)
   \<and> c_count (n_context (the_node (the_state (init Runes 2
         (the_state (run Runes child_created empty_state)))) 0)) = 2
   \<and> the_act (the_state (init Runes 2 (the_state (run Runes child_created empty_state)))) 0 0
       = the_act (the_state (run Runes child_created empty_state)) 0 0
   \<and> a_children (the_act (reports Runes 0 [(1, 0), (2, 0)] (childrenCompleted 0 0
         (the_state (run Runes children_called empty_state)))) 0 0)
   \<and> \<not> a_children (the_act (reports Runes 0 [(1, 0)] (childrenCompleted 0 0
         (the_state (run Runes children_called empty_state)))) 0 0)"
  using gate_compares_live_count [of 0 "the_state (run Runes children_called empty_state)" 0
      Runes "(1, 0)" 2 2 "[(1, 0), (2, 0)]"]
    gate_compares_live_count [of 0 "the_state (run Runes children_called empty_state)" 0
      Runes "(1, 0)" 2 2 "[(1, 0)]"]
    gate_compares_live_count [of 0 "the_state (run Runes child_created empty_state)" 0
      Runes "(1, 0)" 2 1 "[]"]
    ok_the_state [OF run_child_created(7)]
  by (simp add: run_children_called run_child_created) blast

lemma run_one_child:
  "c_count (n_context (the_node (the_state (run Runes one_child empty_state)) 0)) = 1"
  "c_completed (n_context (the_node (the_state (run Runes one_child empty_state)) 0)) = Some 0"
  "\<not> a_children (the_act (the_state (run Runes one_child empty_state)) 0 0)"
  by (simp_all add: one_child_def eval_defs)

lemma run_child_added:
  "ok (run Runes child_added empty_state)"
  "c_count (n_context (the_node (the_state (run Runes child_added empty_state)) 0)) = 2"
  "a_reports (the_act (the_state (run Runes child_added empty_state)) 0 0) = [(1, 0)]"
  "\<not> a_children (the_act (the_state (run Runes child_added empty_state)) 0 0)"
  by (simp_all add: child_added_def child_created_def one_child_def eval_defs)

text \<open>
  The claim C3 as it is written fails. The root's gate is created while its context
  counts one child; a second child is then mounted inside the root, which brings the
  count to two; the first child's call of \<^verbatim>\<open>parent.completed()\<close>, the one arrival that
  the sampled count asks for, leaves the gate pending.
\<close>

theorem gate_needs_sampled_count_counterexample:
  "c_count (n_context (the_node (the_state (run Runes one_child empty_state)) 0)) = 1
   \<and> c_completed (n_context (the_node (the_state (run Runes one_child empty_state)) 0))
       = Some 0
   \<and> \<not> a_children (the_act (the_state (run Runes one_child empty_state)) 0 0)
   \<and> ok (run Runes child_added empty_state)
   \<and> c_count (n_context (the_node (the_state (run Runes child_added empty_state)) 0)) = 2
   \<and> a_reports (the_act (the_state (run Runes child_added empty_state)) 0 0) = [(1, 0)]
   \<and> \<not> a_children (the_act (the_state (run Runes child_added empty_state)) 0 0)"
  by (simp add: run_one_child run_child_added)

section \<open>Waiting for the native transition\<close>

lemma fold_resolve_frame:
  "length (nodes (fold (\<lambda>a. upd_act n a f) as s)) = length (nodes s)"
  "length (n_acts (the_node (fold (\<lambda>a. upd_act n a f) as s) m)) = length (n_acts (the_node s m))"
  "n_listeners (the_node (fold (\<lambda>a. upd_act n a f) as s) m) = n_listeners (the_node s m)"
  "m \<noteq> n \<Longrightarrow> the_node (fold (\<lambda>a. upd_act n a f) as s) m = the_node s m"
  by (induction as arbitrary: s) (simp_all add: the_node_upd_act)

lemma fold_resolve_mono:
  "a_transitioned (the_act s n b) \<Longrightarrow>
   a_transitioned (the_act (fold (\<lambda>a. upd_act n a (\<lambda>x. x\<lparr>a_transitioned := True\<rparr>)) as s) n b)"
  by (induction as arbitrary: s) (simp_all add: the_act_upd_act)

lemma fold_resolve_set:
  "n < length (nodes s) \<Longrightarrow> b < length (n_acts (the_node s n)) \<Longrightarrow> b \<in> set as \<Longrightarrow>
   a_transitioned (the_act (fold (\<lambda>a. upd_act n a (\<lambda>x. x\<lparr>a_transitioned := True\<rparr>)) as s) n b)"
proof (induction as arbitrary: s)
  case Nil
  then show ?case by simp
next
  case (Cons a as)
  show ?case
  proof (cases "b = a")
    case True
    then show ?thesis
      using Cons.prems by (simp add: fold_resolve_mono the_act_upd_act)
  next
    case False
    then show ?thesis
      using Cons.prems Cons.IH [of "upd_act n a (\<lambda>x. x\<lparr>a_transitioned := True\<rparr>) s"]
      by simp
  qed
qed

lemma transition_end_fires:
  assumes "n < length (nodes s)" "n_listeners (the_node s n) \<noteq> []"
  shows "n_listeners (the_node (transition_end (n # ns) s) n) = []"
    "m \<noteq> n \<Longrightarrow> the_node (transition_end (n # ns) s) m = the_node s m"
    "b < length (n_acts (the_node s n)) \<Longrightarrow> b \<in> set (n_listeners (the_node s n)) \<Longrightarrow>
       a_transitioned (the_act (transition_end (n # ns) s) n b)"
    "transition_end (n # ns) (transition_end (n # ns) s) = transition_end ns (transition_end (n # ns) s)"
  using assms
  by (simp_all add: fold_resolve_frame fold_resolve_set the_node_upd_node)

text \<open>
  C7. \<^verbatim>\<open>transitionEnd\<close> with an empty class list returns a resolved promise and leaves
  the listeners of every element as they are, so nothing outside is awaited. With a
  class list that is not empty it returns a pending promise and registers one listener
  on \<^verbatim>\<open>el\<close>; the next \<^verbatim>\<open>transitionend\<close> event that reaches the element resolves the promise
  and removes the listener (\<^verbatim>\<open>once\<close>), no other node is touched by it (the listener
  stops the propagation to the elements around), and an event after that finds no
  listener on the element and passes on.
\<close>

theorem transitionEnd_wait:
  assumes "n < length (nodes s)" and "a < length (n_acts (the_node s n))"
  shows "(\<exists>s'. transitionEnd n a [] s = Inr s'
            \<and> a_transitioned (the_act s' n a)
            \<and> ready s' (the_act s' n a) W_Transitioned
            \<and> (\<forall>m. n_listeners (the_node s' m) = n_listeners (the_node s m)))
       \<and> (cs \<noteq> [] \<and> n_el (the_node s n) \<longrightarrow>
            (\<exists>s'. transitionEnd n a cs s = Inr s'
               \<and> \<not> a_transitioned (the_act s' n a)
               \<and> n_listeners (the_node s' n) = n_listeners (the_node s n) @ [a]
               \<and> a_transitioned (the_act (transition_end (n # ns) s') n a)
               \<and> n_listeners (the_node (transition_end (n # ns) s') n) = []
               \<and> (\<forall>m. m \<noteq> n \<longrightarrow> the_node (transition_end (n # ns) s') m = the_node s' m)
               \<and> transition_end (n # ns) (transition_end (n # ns) s')
                    = transition_end ns (transition_end (n # ns) s')))"
proof -
  have a: "\<exists>s'. transitionEnd n a [] s = Inr s'
            \<and> a_transitioned (the_act s' n a)
            \<and> ready s' (the_act s' n a) W_Transitioned
            \<and> (\<forall>m. n_listeners (the_node s' m) = n_listeners (the_node s m))"
    using assms by (simp add: transitionEnd_def the_act_upd_act ready_def the_node_upd_act)
  have b: "\<exists>s'. transitionEnd n a cs s = Inr s'
               \<and> \<not> a_transitioned (the_act s' n a)
               \<and> n_listeners (the_node s' n) = n_listeners (the_node s n) @ [a]
               \<and> a_transitioned (the_act (transition_end (n # ns) s') n a)
               \<and> n_listeners (the_node (transition_end (n # ns) s') n) = []
               \<and> (\<forall>m. m \<noteq> n \<longrightarrow> the_node (transition_end (n # ns) s') m = the_node s' m)
               \<and> transition_end (n # ns) (transition_end (n # ns) s')
                    = transition_end ns (transition_end (n # ns) s')"
    if "cs \<noteq> []" "n_el (the_node s n)"
  proof -
    let ?s = "upd_node n (\<lambda>nd. nd\<lparr>n_listeners := n_listeners nd @ [a]\<rparr>)
                (upd_act n a (\<lambda>x. x\<lparr>a_transitioned := False\<rparr>) s)"
    have e: "transitionEnd n a cs s = Inr ?s"
      using that by (simp add: transitionEnd_def)
    have l: "n_listeners (the_node ?s n) = n_listeners (the_node s n) @ [a]"
      using assms by (simp add: the_node_upd_node the_node_upd_act)
    have v: "n < length (nodes ?s)" "a < length (n_acts (the_node ?s n))"
      "n_listeners (the_node ?s n) \<noteq> []" "a \<in> set (n_listeners (the_node ?s n))"
      using assms l by (simp_all add: the_node_upd_node the_node_upd_act)
    have f: "\<not> a_transitioned (the_act ?s n a)"
      using assms by (simp add: the_act_def the_node_upd_node the_node_upd_act)
    show ?thesis
      using e l f transition_end_fires [OF v(1) v(3), where ns = ns] v(2) v(4)
      by (intro exI [of _ ?s]) (simp del: transition_end.simps)
  qed
  show ?thesis
    using a b by blast
qed


theorem transitionEnd_wait_witness:
  "a_transitioned (the_act (the_state (transitionEnd 0 0 []
       (the_state (run Runes gate_installed empty_state)))) 0 0)
   \<and> n_listeners (the_node (the_state (transitionEnd 0 0 [''x'']
       (the_state (run Runes gate_installed empty_state)))) 0) = [0, 0]
   \<and> n_listeners (the_node (transition_end [0] (the_state (transitionEnd 0 0 [''x'']
       (the_state (run Runes gate_installed empty_state))))) 0) = []"
  using transitionEnd_wait [of 0 "the_state (run Runes gate_installed empty_state)" 0
      "[''x'']" "[]"]
  by (simp add: gate_installed_def two_children_def eval_defs)

section \<open>The first call of execute and the later ones\<close>





lemma started_simps [simp]:
  "started (upd_act n a g s) m = started s m"
  "started (upd_ctx n h s) m = started s m"
  "started (store_set n shw s) m = started s m"
  "started (s\<lparr>queue := q\<rparr>) m = started s m"
  by (simp_all add: started_def)













section \<open>Updates of a top-level transition\<close>










text \<open>
  In the \<open>Runes\<close> text two updates made during one activation are registered on the same
  promise. When it is resolved both callbacks run, one after the other: the \<^verbatim>\<open>leave\<close>
  started by the first is still at its first \<^verbatim>\<open>await\<close> when the second starts an
  \<^verbatim>\<open>enter\<close>.
\<close>

theorem updates_on_one_promise_overlap:
  "ok (run Runes twice_updated empty_state)
   \<and> map a_enter (n_acts (the_node (the_state (run Runes twice_updated empty_state)) 0))
     = [True, False, True]
   \<and> map a_wait (n_acts (the_node (the_state (run Runes twice_updated empty_state)) 0))
     = [None, Some W_Tick, Some W_Tick]
   \<and> n_events (the_node (the_state (run Runes twice_updated empty_state)) 0)
     = [BeforeEnter, AfterEnter, BeforeLeave, BeforeEnter]"
  by (simp add: twice_updated_def entered_def eval_defs)


section \<open>Unmounted content\<close>

text \<open>
  C8 on the code. A top-level node created with \<^verbatim>\<open>unmount\<close> and with \<^verbatim>\<open>show\<close> false does
  not render its slot, in any of the three texts. In the \<open>Slots\<close> and \<open>Runes\<close> texts, if
  \<^verbatim>\<open>appear\<close> is set as well, the action's first call of \<^verbatim>\<open>execute\<close> runs \<^verbatim>\<open>leave\<close>, whose
  \<^verbatim>\<open>ensureMountedElement\<close> sets \<^verbatim>\<open>mounted\<close>: the slot is rendered although \<^verbatim>\<open>show\<close> is
  false and has never been true.
\<close>

theorem leave_mounts_hidden_content:
  "\<not> slot_rendered Runes (new_node Runes unmount_props None empty_state)
   \<and> \<not> slot_rendered Slots (new_node Slots unmount_props None empty_state)
   \<and> \<not> slot_rendered Legacy (new_node Legacy unmount_props None empty_state)
   \<and> ok (run Runes hidden_unmounted empty_state)
   \<and> p_show (n_props (the_node (the_state (run Runes hidden_unmounted empty_state)) 0)) = Some False
   \<and> slot_rendered Runes (the_node (the_state (run Runes hidden_unmounted empty_state)) 0)
   \<and> ok (run Slots hidden_unmounted empty_state)
   \<and> p_show (n_props (the_node (the_state (run Slots hidden_unmounted empty_state)) 0)) = Some False
   \<and> slot_rendered Slots (the_node (the_state (run Slots hidden_unmounted empty_state)) 0)"
  by (simp add: hidden_unmounted_def unmount_props_def eval_defs)

theorem leave_mounts_hidden_content_witness:
  "n_mounted (the_node (the_state (run Runes hidden_unmounted empty_state)) 0) = Some True
   \<and> n_mounted (the_node (the_state (run Slots hidden_unmounted empty_state)) 0) = Some True
   \<and> p_show (n_props (the_node (the_state (run Runes hidden_unmounted empty_state)) 0))
       = Some False"
  using leave_mounts_hidden_content by (simp add: slot_rendered_def truthy_def)


section \<open>The gate and the store\<close>










end
